theory Spec2Isabelle
  imports Main "HOL-Library.Word"
begin

unbundle bit_operations_syntax

section \<open>Machine integers and undefined behaviour\<close>

text \<open>
  \<^verbatim>\<open>primes.c\<close> computes on \<^verbatim>\<open>uint32_t\<close> (\<^verbatim>\<open>u32\<close>) with \<^verbatim>\<open>uint64_t\<close> (\<^verbatim>\<open>u64\<close>)
  intermediates. Both are modelled as machine words: arithmetic wraps, \<open>unat\<close> reads
  the unsigned value.

  C leaves two operations of the program undefined on some operands: \<^verbatim>\<open>%\<close> with a
  zero divisor and \<^verbatim>\<open>__builtin_ctzl\<close> at zero. Each is an explicit outcome of the
  model, so that "cannot happen" is a statement that can be proved.
\<close>

type_synonym u32 = "32 word"
type_synonym u64 = "64 word"

datatype undefined_behaviour = Division_By_Zero | Ctz_Of_Zero

section \<open>Modular exponentiation: \<^verbatim>\<open>powmod\<close>\<close>

text \<open>
  The C expression \<^verbatim>\<open>(u64)x * y % m\<close> stored into a \<^verbatim>\<open>u32\<close>: \<open>x\<close> is widened to 64
  bits, \<open>y\<close> and \<open>m\<close> are converted to 64 bits by the usual arithmetic conversions, the
  product and the remainder are 64-bit operations, and the store truncates to 32 bits.
\<close>

definition mulmod :: "u32 \<Rightarrow> u32 \<Rightarrow> u32 \<Rightarrow> u32" where
  "mulmod x y m = ucast (((ucast x :: u64) * (ucast y :: u64)) mod (ucast m :: u64))"

text \<open>
  The \<^verbatim>\<open>while (exponent)\<close> loop of \<^verbatim>\<open>powmod\<close>, started at any loop-head state.
  \<^verbatim>\<open>result\<close> is updated before \<^verbatim>\<open>power\<close> is squared, so both updates read the
  \<^verbatim>\<open>power\<close> of the loop head. The C variable \<^verbatim>\<open>power\<close> is written \<open>pwr\<close>, since
  \<open>power\<close> is the exponentiation of HOL.
\<close>

function powmod_loop :: "u32 \<Rightarrow> u32 \<Rightarrow> u32 \<Rightarrow> u32 \<Rightarrow> u32" where
  "powmod_loop m pwr result exponent =
     (if exponent \<noteq> 0 then
        powmod_loop m
          (mulmod pwr pwr m)
          (if exponent AND 1 \<noteq> 0 then mulmod result pwr m else result)
          (drop_bit 1 exponent)
      else result)"
  by pat_completeness auto
termination
proof (relation "measure (\<lambda>(m, pwr, result, exponent). unat exponent)")
  show "wf (measure (\<lambda>(m :: u32, pwr :: u32, result :: u32, exponent :: u32). unat exponent))"
    by simp
next
  fix m pwr result exponent :: u32
  assume "exponent \<noteq> 0"
  then have "0 < unat exponent"
    by (simp add: unat_gt_0)
  then have "unat exponent div 2 < unat exponent"
    by simp
  then show "((m, mulmod pwr pwr m,
               if exponent AND 1 \<noteq> 0 then mulmod result pwr m else result,
               drop_bit 1 exponent),
              (m, pwr, result, exponent))
             \<in> measure (\<lambda>(m, pwr, result, exponent). unat exponent)"
    by (simp add: drop_bit_eq_div unat_div)
qed

declare powmod_loop.simps [simp del]

text \<open>
  The loop-head states \<open>(pwr, result, exponent)\<close> that the loop passes through, in
  order, the last one being the state at exit. At a state with \<open>exponent \<noteq> 0\<close> the body
  multiplies \<open>result\<close> by \<open>pwr\<close> (when the low bit is set) and \<open>pwr\<close> by itself.
\<close>

function powmod_states :: "u32 \<Rightarrow> u32 \<Rightarrow> u32 \<Rightarrow> u32 \<Rightarrow> (u32 \<times> u32 \<times> u32) list" where
  "powmod_states m pwr result exponent =
     (pwr, result, exponent) #
     (if exponent \<noteq> 0 then
        powmod_states m
          (mulmod pwr pwr m)
          (if exponent AND 1 \<noteq> 0 then mulmod result pwr m else result)
          (drop_bit 1 exponent)
      else [])"
  by pat_completeness auto
termination
proof (relation "measure (\<lambda>(m, pwr, result, exponent). unat exponent)")
  show "wf (measure (\<lambda>(m :: u32, pwr :: u32, result :: u32, exponent :: u32). unat exponent))"
    by simp
next
  fix m pwr result exponent :: u32
  assume "exponent \<noteq> 0"
  then have "0 < unat exponent"
    by (simp add: unat_gt_0)
  then have "unat exponent div 2 < unat exponent"
    by simp
  then show "((m, mulmod pwr pwr m,
               if exponent AND 1 \<noteq> 0 then mulmod result pwr m else result,
               drop_bit 1 exponent),
              (m, pwr, result, exponent))
             \<in> measure (\<lambda>(m, pwr, result, exponent). unat exponent)"
    by (simp add: drop_bit_eq_div unat_div)
qed

declare powmod_states.simps [simp del]

text \<open>
  \<^verbatim>\<open>powmod\<close> itself. The first statement, \<^verbatim>\<open>base % m\<close>, is undefined for \<open>m = 0\<close>; once
  it has been passed, \<open>m\<close> is non-zero at every later \<^verbatim>\<open>% m\<close>.
\<close>

definition powmod :: "u32 \<Rightarrow> u32 \<Rightarrow> u32 \<Rightarrow> undefined_behaviour + u32" where
  "powmod base exponent m =
     (if m = 0 then Inl Division_By_Zero
      else Inr (powmod_loop m (base mod m) 1 exponent))"

section \<open>The strong probable prime test\<close>

text \<open>
  Modelled from the spec: \<^verbatim>\<open>__builtin_ctzl\<close> is a primitive of the compiler and has no
  source in the repository. It returns the count of trailing zero bits of its
  \<^verbatim>\<open>unsigned long\<close> argument (64 bits wide here) and is undefined at zero.
  \<open>ctz_bits k x\<close> shifts zero bits out of the lowest \<open>k\<close> positions of \<open>x\<close>.
\<close>

fun ctz_bits :: "nat \<Rightarrow> u64 \<Rightarrow> nat" where
  "ctz_bits 0 x = 0"
| "ctz_bits (Suc k) x = (if x AND 1 \<noteq> 0 then 0 else Suc (ctz_bits k (drop_bit 1 x)))"

definition builtin_ctzl :: "u64 \<Rightarrow> undefined_behaviour + nat" where
  "builtin_ctzl x = (if x = 0 then Inl Ctz_Of_Zero else Inr (ctz_bits 64 x))"

text \<open>
  The \<^verbatim>\<open>for (unsigned i=0; i < e; ++i)\<close> loop of \<^verbatim>\<open>is_strong_probable_prime\<close>, started
  at any counter value: it returns true from inside the body, and false when the counter
  reaches \<open>e\<close>.
\<close>

function squaring_loop :: "u32 \<Rightarrow> u32 \<Rightarrow> u32 \<Rightarrow> u32 \<Rightarrow> bool" where
  "squaring_loop i e pwr n =
     (if i < e then
        (if pwr = n - 1 then True
         else squaring_loop (i + 1) e (mulmod pwr pwr n) n)
      else False)"
  by pat_completeness auto
termination
proof (relation "measure (\<lambda>(i, e, pwr, n). unat e - unat i)")
  show "wf (measure (\<lambda>(i :: u32, e :: u32, pwr :: u32, n :: u32). unat e - unat i))"
    by simp
next
  fix i e pwr n :: u32
  assume "i < e"
  then have less: "unat i < unat e"
    by (simp add: word_less_nat_alt)
  moreover have "unat e < 2 ^ 32"
    using unsigned_less [of e, where ?'a = nat] by simp
  ultimately have "unat i + 1 < 2 ^ 32"
    by simp
  then have "unat (i + 1) = unat i + 1"
    by (simp add: unat_word_ariths)
  with less show "((i + 1, e, mulmod pwr pwr n, n), (i, e, pwr, n))
             \<in> measure (\<lambda>(i, e, pwr, n). unat e - unat i)"
    by simp
qed

declare squaring_loop.simps [simp del]

text \<open>
  The loop-head states \<open>(i, pwr)\<close> that the squaring loop passes through, in order.
  At a state with \<open>i < e\<close> and \<open>pwr \<noteq> n - 1\<close> the body multiplies \<open>pwr\<close> by itself.
\<close>

function squaring_states :: "u32 \<Rightarrow> u32 \<Rightarrow> u32 \<Rightarrow> u32 \<Rightarrow> (u32 \<times> u32) list" where
  "squaring_states i e pwr n =
     (i, pwr) #
     (if i < e then
        (if pwr = n - 1 then []
         else squaring_states (i + 1) e (mulmod pwr pwr n) n)
      else [])"
  by pat_completeness auto
termination
proof (relation "measure (\<lambda>(i, e, pwr, n). unat e - unat i)")
  show "wf (measure (\<lambda>(i :: u32, e :: u32, pwr :: u32, n :: u32). unat e - unat i))"
    by simp
next
  fix i e pwr n :: u32
  assume "i < e"
  then have less: "unat i < unat e"
    by (simp add: word_less_nat_alt)
  moreover have "unat e < 2 ^ 32"
    using unsigned_less [of e, where ?'a = nat] by simp
  ultimately have "unat i + 1 < 2 ^ 32"
    by simp
  then have "unat (i + 1) = unat i + 1"
    by (simp add: unat_word_ariths)
  with less show "((i + 1, e, mulmod pwr pwr n, n), (i, e, pwr, n))
             \<in> measure (\<lambda>(i, e, pwr, n). unat e - unat i)"
    by simp
qed

declare squaring_states.simps [simp del]

text \<open>
  \<^verbatim>\<open>is_strong_probable_prime\<close>. \<^verbatim>\<open>n % base\<close> is undefined for \<open>base = 0\<close>. \<^verbatim>\<open>n - 1\<close>
  is a 32-bit subtraction whose value is widened to the 64-bit argument of
  \<^verbatim>\<open>__builtin_ctzl\<close>; the count is stored in the \<^verbatim>\<open>unsigned\<close> variable \<open>e\<close>, which then
  is the shift distance of \<^verbatim>\<open>(n - 1) >> e\<close> and the bound of the squaring loop. The
  count is that of a non-zero 32-bit value, so the shift distance is below 32.
\<close>

definition is_strong_probable_prime :: "u32 \<Rightarrow> u32 \<Rightarrow> undefined_behaviour + bool" where
  "is_strong_probable_prime base n =
     (if n \<le> 2 then Inr (n = 2)
      else if n AND 1 = 0 then Inr False
      else if base = 0 then Inl Division_By_Zero
      else if n mod base = 0 then Inr (n = base)
      else
        (case builtin_ctzl (ucast (n - 1)) of
           Inl ub \<Rightarrow> Inl ub
         | Inr c \<Rightarrow>
             let e = (of_nat c :: u32) in
             (case powmod base (drop_bit (unat e) (n - 1)) n of
                Inl ub \<Rightarrow> Inl ub
              | Inr pwr \<Rightarrow>
                  if pwr = 1 then Inr True
                  else Inr (squaring_loop 0 e pwr n))))"

section \<open>The primality oracle\<close>

text \<open>
  The \<^verbatim>\<open>for (u32 i=3; i <= 61; i += 2)\<close> loop of \<^verbatim>\<open>is_prime\<close>, started at any value
  of \<open>i\<close>: \<open>Some b\<close> is a \<^verbatim>\<open>return b\<close> from inside the body, \<open>None\<close> is leaving the
  loop at \<open>i > 61\<close>. The loop starts at 3, so the divisor of \<^verbatim>\<open>n % i\<close> is never zero.
\<close>

function trial_division :: "u32 \<Rightarrow> u32 \<Rightarrow> bool option" where
  "trial_division i n =
     (if i \<le> 61 then
        (if n = i then Some True
         else if n mod i = 0 then Some False
         else trial_division (i + 2) n)
      else None)"
  by pat_completeness auto
termination
proof (relation "measure (\<lambda>(i, n). 62 - unat i)")
  show "wf (measure (\<lambda>(i :: u32, n :: u32). 62 - unat i))"
    by simp
next
  fix i n :: u32
  assume "i \<le> 61"
  then have le: "unat i \<le> 61"
    by (simp add: word_le_nat_alt)
  then have "unat (i + 2) = unat i + 2"
    by (simp add: unat_word_ariths)
  with le show "((i + 2, n), (i, n)) \<in> measure (\<lambda>(i, n). 62 - unat i)"
    by simp
qed

declare trial_division.simps [simp del]

text \<open>
  C's \<^verbatim>\<open>a && b\<close>: \<open>b\<close> is evaluated only when \<open>a\<close> is true, so that undefined behaviour
  in \<open>b\<close> counts only then.
\<close>

definition and_then ::
  "undefined_behaviour + bool \<Rightarrow> undefined_behaviour + bool \<Rightarrow> undefined_behaviour + bool" where
  "and_then a b = (case a of Inl ub \<Rightarrow> Inl ub | Inr t \<Rightarrow> if t then b else Inr False)"

definition is_prime :: "u32 \<Rightarrow> undefined_behaviour + bool" where
  "is_prime n =
     (if n \<le> 2 then Inr (n = 2)
      else if n AND 1 = 0 then Inr False
      else
        (case trial_division 3 n of
           Some b \<Rightarrow> Inr b
         | None \<Rightarrow>
             and_then (and_then (is_strong_probable_prime 2 n)
                                (is_strong_probable_prime 7 n))
                      (is_strong_probable_prime 61 n)))"

section \<open>The range driver\<close>

text \<open>
  The \<^verbatim>\<open>for (u32 i=LO; i < HI; ++i) count += is_prime(i);\<close> loop of \<^verbatim>\<open>main\<close>, started
  at any counter and count; \<^verbatim>\<open>count\<close> is a \<^verbatim>\<open>u32\<close> and wraps.
\<close>

function count_loop :: "u32 \<Rightarrow> u32 \<Rightarrow> u32 \<Rightarrow> undefined_behaviour + u32" where
  "count_loop i hi count =
     (if i < hi then
        (case is_prime i of
           Inl ub \<Rightarrow> Inl ub
         | Inr b \<Rightarrow> count_loop (i + 1) hi (count + (if b then 1 else 0)))
      else Inr count)"
  by pat_completeness auto
termination
proof (relation "measure (\<lambda>(i, hi, count). unat hi - unat i)")
  show "wf (measure (\<lambda>(i :: u32, hi :: u32, count :: u32). unat hi - unat i))"
    by simp
next
  fix i hi count :: u32 and b :: bool
  assume "i < hi"
  then have less: "unat i < unat hi"
    by (simp add: word_less_nat_alt)
  moreover have "unat hi < 2 ^ 32"
    using unsigned_less [of hi, where ?'a = nat] by simp
  ultimately have "unat i + 1 < 2 ^ 32"
    by simp
  then have "unat (i + 1) = unat i + 1"
    by (simp add: unat_word_ariths)
  with less show "((i + 1, hi, count + (if b then 1 else 0)), (i, hi, count))
             \<in> measure (\<lambda>(i, hi, count). unat hi - unat i)"
    by simp
qed

declare count_loop.simps [simp del]

text \<open>
  The computation of \<^verbatim>\<open>main\<close> with its two macros \<^verbatim>\<open>LO\<close> and \<^verbatim>\<open>HI\<close> as parameters,
  under the name the spec gives the range driver:
  \<^verbatim>\<open>u32 count = LO <= HI && is_prime(HI);\<close>, then the loop. The value is what
  \<^verbatim>\<open>main\<close> prints.
\<close>

definition count_primes :: "u32 \<Rightarrow> u32 \<Rightarrow> undefined_behaviour + u32" where
  "count_primes lo hi =
     (case and_then (Inr (lo \<le> hi)) (is_prime hi) of
        Inl ub \<Rightarrow> Inl ub
      | Inr b \<Rightarrow> count_loop lo hi (if b then 1 else 0))"

text \<open>\<^verbatim>\<open>main\<close> with \<^verbatim>\<open>#define LO 0\<close> and \<^verbatim>\<open>#define HI 100000000\<close>.\<close>

definition main_count :: "undefined_behaviour + u32" where
  "main_count = count_primes 0 100000000"

section \<open>Primality\<close>

text \<open>
  Primality of a natural number, by the definition: greater than 1 and with no divisor
  strictly between 1 and itself.
\<close>

definition prime_nat :: "nat \<Rightarrow> bool" where
  "prime_nat p = (1 < p \<and> (\<forall>d \<in> {2..<p}. \<not> d dvd p))"

section \<open>Word arithmetic of the program\<close>

lemma unat_u32_bound: "unat (x :: u32) < 4294967296"
  using unsigned_less [of x, where ?'a = nat] by simp

lemma unat_ucast_u32_u64: "unat (ucast (x :: u32) :: u64) = unat x"
proof -
  have "unat x < 2 ^ 64"
    using unat_u32_bound [of x] by simp
  then show ?thesis
    by (simp add: unsigned_ucast_eq take_bit_nat_eq_self)
qed

lemma u64_product_exact:
  "unat ((ucast (x :: u32) :: u64) * (ucast (y :: u32) :: u64)) = unat x * unat y"
proof -
  have "unat x * unat y \<le> 4294967295 * 4294967295"
    using unat_u32_bound [of x] unat_u32_bound [of y] by (intro mult_le_mono) simp_all
  then have "unat x * unat y < 2 ^ 64"
    by simp
  then show ?thesis
    by (simp add: unat_word_ariths unat_ucast_u32_u64)
qed

lemma unat_mulmod:
  assumes "m \<noteq> 0"
  shows "unat (mulmod x y m) = unat x * unat y mod unat m"
proof -
  let ?r = "((ucast x :: u64) * (ucast y :: u64)) mod (ucast m :: u64)"
  have r: "unat ?r = unat x * unat y mod unat m"
    by (simp add: unat_mod u64_product_exact unat_ucast_u32_u64)
  from assms have "0 < unat m"
    by (simp add: unat_gt_0)
  then have "unat x * unat y mod unat m < unat m"
    by simp
  with r unat_u32_bound [of m] have "unat ?r < 2 ^ 32"
    by simp
  then have "unat (ucast ?r :: u32) = unat ?r"
    by (simp add: unsigned_ucast_eq take_bit_nat_eq_self)
  with r show ?thesis
    by (simp add: mulmod_def)
qed

lemma mulmod_less:
  assumes "m \<noteq> 0"
  shows "mulmod x y m < m"
proof -
  from assms have "0 < unat m"
    by (simp add: unat_gt_0)
  then show ?thesis
    by (simp add: word_less_nat_alt unat_mulmod [OF assms])
qed

lemma and_one_odd: "(x :: 'a::len word) AND 1 \<noteq> 0 \<longleftrightarrow> odd (unat x)"
proof -
  have "x AND 1 \<noteq> 0 \<longleftrightarrow> bit x 0"
    by (simp add: and_one_eq bit_0 even_iff_mod_2_eq_zero)
  also have "\<dots> \<longleftrightarrow> bit (unat x) 0"
    by (simp add: bit_unsigned_iff)
  also have "\<dots> \<longleftrightarrow> odd (unat x)"
    by (simp add: bit_0)
  finally show ?thesis .
qed

lemma unat_drop_bit_1: "unat (drop_bit 1 (x :: 'a::len word)) = unat x div 2"
  unfolding unat_drop_bit_eq by (simp add: drop_bit_eq_div)

lemma unat_drop_bit_Suc_0: "unat (drop_bit (Suc 0) (x :: 'a::len word)) = unat x div 2"
  unfolding unat_drop_bit_eq by (simp add: drop_bit_eq_div)

lemma square_multiply_step:
  fixes r p e m :: nat
  shows "(if odd e then r * p mod m else r) * (p * p mod m) ^ (e div 2) mod m = r * p ^ e mod m"
proof -
  let ?k = "e div 2"
  have "e = 2 * ?k + e mod 2"
    by simp
  then have "p ^ e = p ^ (2 * ?k + e mod 2)"
    by simp
  also have "\<dots> = (p * p) ^ ?k * p ^ (e mod 2)"
    by (simp only: power_add power_mult power2_eq_square)
  finally have split: "p ^ e = (p * p) ^ ?k * p ^ (e mod 2)" .
  have sq: "(p * p mod m) ^ ?k mod m = (p * p) ^ ?k mod m"
    by (rule power_mod)
  show ?thesis
  proof (cases "odd e")
    case True
    then have "e mod 2 = 1"
      by (simp add: odd_iff_mod_2_eq_one)
    with split have "p ^ e = p * (p * p) ^ ?k"
      by simp
    then have eq: "r * p ^ e = (r * p) * (p * p) ^ ?k"
      by (simp only: mult.assoc)
    have "(r * p mod m) * (p * p mod m) ^ ?k mod m
        = (r * p mod m) * ((p * p mod m) ^ ?k mod m) mod m"
      by (simp only: mod_mult_right_eq)
    also have "\<dots> = (r * p mod m) * ((p * p) ^ ?k mod m) mod m"
      by (simp only: sq)
    also have "\<dots> = (r * p) * (p * p) ^ ?k mod m"
      by (simp only: mod_mult_eq)
    finally show ?thesis
      using True by (simp add: eq)
  next
    case False
    then have "e mod 2 = 0"
      by simp
    with split have eq: "p ^ e = (p * p) ^ ?k"
      by simp
    have "r * (p * p mod m) ^ ?k mod m = r * ((p * p mod m) ^ ?k mod m) mod m"
      by (simp only: mod_mult_right_eq)
    also have "\<dots> = r * ((p * p) ^ ?k mod m) mod m"
      by (simp only: sq)
    also have "\<dots> = r * (p * p) ^ ?k mod m"
      by (simp only: mod_mult_right_eq)
    finally show ?thesis
      using False by (simp add: eq)
  qed
qed

lemma powmod_loop_value:
  assumes "m \<noteq> 0" and "result < m \<or> exponent \<noteq> 0"
  shows "unat (powmod_loop m pwr result exponent)
         = unat result * unat pwr ^ unat exponent mod unat m"
  using assms
proof (induction m pwr result exponent rule: powmod_loop.induct)
  case (1 m pwr result exponent)
  show ?case
  proof (cases "exponent = 0")
    case True
    with "1.prems" have "unat result < unat m"
      by (simp add: word_less_nat_alt)
    moreover from True have "powmod_loop m pwr result exponent = result"
      by (subst powmod_loop.simps) simp
    ultimately show ?thesis
      using True by simp
  next
    case False
    let ?r = "if exponent AND 1 \<noteq> 0 then mulmod result pwr m else result"
    have next_ok: "?r < m \<or> drop_bit 1 exponent \<noteq> 0"
    proof (cases "exponent AND 1 \<noteq> 0")
      case True
      then show ?thesis
        using mulmod_less [OF "1.prems"(1)] by simp
    next
      case even: False
      then have "even (unat exponent)"
        using and_one_odd [of exponent] by simp
      moreover from False have "0 < unat exponent"
        by (simp add: unat_gt_0)
      ultimately have "0 < unat exponent div 2"
        by (auto elim: evenE)
      then have "drop_bit 1 exponent \<noteq> 0"
        by (metis unat_drop_bit_1 unat_gt_0)
      then show ?thesis ..
    qed
    have "unat (powmod_loop m pwr result exponent)
        = unat (powmod_loop m (mulmod pwr pwr m) ?r (drop_bit 1 exponent))"
      using False by (simp add: powmod_loop.simps [of m pwr result exponent])
    also have "\<dots> = unat ?r * unat (mulmod pwr pwr m) ^ unat (drop_bit 1 exponent) mod unat m"
      using "1.IH" [OF False "1.prems"(1) next_ok] .
    also have "\<dots> = (if odd (unat exponent) then unat result * unat pwr mod unat m else unat result)
        * (unat pwr * unat pwr mod unat m) ^ (unat exponent div 2) mod unat m"
      by (simp add: unat_mulmod [OF "1.prems"(1)] unat_drop_bit_Suc_0 and_one_odd)
    also have "\<dots> = unat result * unat pwr ^ unat exponent mod unat m"
      by (rule square_multiply_step)
    finally show ?thesis .
  qed
qed

section \<open>Results on \<^verbatim>\<open>powmod\<close>\<close>

lemma powmod_value:
  assumes "m \<noteq> 0" and "1 < m \<or> exponent \<noteq> 0"
  shows "powmod base exponent m = Inr (of_nat (unat base ^ unat exponent mod unat m))"
proof -
  have "(1 :: u32) < m \<or> exponent \<noteq> 0"
    using assms(2) .
  from powmod_loop_value [OF assms(1) this, of "base mod m"]
  have "unat (powmod_loop m (base mod m) 1 exponent)
      = (unat base mod unat m) ^ unat exponent mod unat m"
    by (simp add: unat_mod)
  also have "\<dots> = unat base ^ unat exponent mod unat m"
    by (rule power_mod)
  finally have eq: "unat (powmod_loop m (base mod m) 1 exponent)
      = unat base ^ unat exponent mod unat m" .
  have "powmod_loop m (base mod m) 1 exponent
      = of_nat (unat (powmod_loop m (base mod m) 1 exponent))"
    by simp
  then have "powmod_loop m (base mod m) 1 exponent
      = of_nat (unat base ^ unat exponent mod unat m)"
    by (simp only: eq)
  with assms(1) show ?thesis
    by (simp add: powmod_def)
qed

lemma powmod_zero_one:
  assumes "1 < m"
  shows "powmod a 0 m = Inr 1 \<and> powmod a 1 m = Inr (a mod m)"
proof -
  from assms have m: "m \<noteq> 0"
    by auto
  have zero: "powmod_loop m (a mod m) 1 0 = 1"
    by (subst powmod_loop.simps) simp
  have "powmod_loop m (a mod m) 1 1
      = powmod_loop m (mulmod (a mod m) (a mod m) m) (mulmod 1 (a mod m) m) 0"
    by (subst powmod_loop.simps) simp
  also have "\<dots> = mulmod 1 (a mod m) m"
    by (subst powmod_loop.simps) simp
  also have "\<dots> = a mod m"
  proof -
    from m have "0 < unat m"
      by (simp add: unat_gt_0)
    then have "unat (mulmod 1 (a mod m) m) = unat (a mod m)"
      by (simp add: unat_mulmod [OF m] unat_mod)
    then show ?thesis
      by (simp only: word_unat_eq_iff)
  qed
  finally show ?thesis
    using m zero by (simp add: powmod_def)
qed

text \<open>
  Claim C3, as amended. For a modulus greater than 1, and for modulus 1 with a non-zero
  exponent, \<^verbatim>\<open>powmod(base, exponent, m)\<close> returns \<open>base ^ exponent mod m\<close>, the power
  taken in exact arithmetic (\<open>base ^ 0 = 1\<close>), and divides by no zero.
\<close>

theorem powmod_correct:
  assumes "m \<noteq> 0" and "1 < m \<or> exponent \<noteq> 0"
  shows "powmod base exponent m = Inr (of_nat (unat base ^ unat exponent mod unat m))"
  using assms by (rule powmod_value)

theorem powmod_correct_witness:
  "(7 :: u32) \<noteq> 0 \<and> (1 < (7 :: u32) \<or> (5 :: u32) \<noteq> 0) \<and> powmod 3 5 7 = Inr 5"
  using powmod_correct [of 7 5 3] by simp

text \<open>
  Claim C3 as the spec states it, for every modulus greater than 0, fails at modulus 1
  with exponent 0: \<^verbatim>\<open>powmod(5, 0, 1)\<close> skips the loop and returns the initial
  \<^verbatim>\<open>result = 1\<close>, while \<open>5 ^ 0 mod 1 = 0\<close>.
\<close>

theorem powmod_modulus_one_counterexample:
  "(1 :: u32) \<noteq> 0 \<and> powmod 5 0 1 = Inr 1
   \<and> unat (1 :: u32) \<noteq> unat (5 :: u32) ^ unat (0 :: u32) mod unat (1 :: u32)"
  by (simp add: powmod_def powmod_loop.simps)

text \<open>
  Claim C9. For every \<open>a\<close> and every modulus \<open>m > 1\<close>, \<^verbatim>\<open>powmod(a, 0, m) == 1\<close> and
  \<^verbatim>\<open>powmod(a, 1, m) == a % m\<close>.
\<close>

theorem powmod_exponent_zero_and_one:
  assumes "1 < m"
  shows "powmod a 0 m = Inr 1 \<and> powmod a 1 m = Inr (a mod m)"
  using assms by (rule powmod_zero_one)

theorem powmod_exponent_zero_and_one_witness:
  "1 < (10 :: u32) \<and> powmod 23 0 10 = Inr 1 \<and> powmod 23 1 10 = Inr 3"
  using powmod_exponent_zero_and_one [of 10 23] by simp

section \<open>The values passing through the loops\<close>

lemma powmod_states_bounded:
  assumes "m \<noteq> 0" and "pwr < m" and "result < m"
  shows "\<forall>(p, r, e) \<in> set (powmod_states m pwr result exponent). p < m \<and> r < m"
  using assms
proof (induction m pwr result exponent rule: powmod_states.induct)
  case (1 m pwr result exponent)
  show ?case
  proof (cases "exponent = 0")
    case True
    then have "powmod_states m pwr result exponent = [(pwr, result, exponent)]"
      by (subst powmod_states.simps) simp
    with "1.prems" show ?thesis
      by simp
  next
    case False
    let ?r = "if exponent AND 1 \<noteq> 0 then mulmod result pwr m else result"
    have "?r < m"
      using "1.prems" by (simp add: mulmod_less)
    with "1.IH" [OF False "1.prems"(1) mulmod_less [OF "1.prems"(1)]]
    have "\<forall>(p, r, e) \<in> set (powmod_states m (mulmod pwr pwr m) ?r (drop_bit 1 exponent)).
            p < m \<and> r < m" .
    moreover have "powmod_states m pwr result exponent
        = (pwr, result, exponent) # powmod_states m (mulmod pwr pwr m) ?r (drop_bit 1 exponent)"
      using False by (subst powmod_states.simps) simp
    ultimately show ?thesis
      using "1.prems" by simp
  qed
qed

lemma powmod_states_not_Nil: "powmod_states m pwr result exponent \<noteq> []"
  by (subst powmod_states.simps) simp

lemma powmod_loop_last_state:
  "powmod_loop m pwr result exponent = fst (snd (last (powmod_states m pwr result exponent)))"
proof (induction m pwr result exponent rule: powmod_loop.induct)
  case (1 m pwr result exponent)
  show ?case
  proof (cases "exponent = 0")
    case True
    then have "powmod_states m pwr result exponent = [(pwr, result, exponent)]"
      by (subst powmod_states.simps) simp
    moreover from True have "powmod_loop m pwr result exponent = result"
      by (subst powmod_loop.simps) simp
    ultimately show ?thesis
      by simp
  next
    case False
    let ?r = "if exponent AND 1 \<noteq> 0 then mulmod result pwr m else result"
    have "powmod_states m pwr result exponent
        = (pwr, result, exponent) # powmod_states m (mulmod pwr pwr m) ?r (drop_bit 1 exponent)"
      using False by (subst powmod_states.simps) simp
    moreover have "powmod_loop m pwr result exponent
        = powmod_loop m (mulmod pwr pwr m) ?r (drop_bit 1 exponent)"
      using False by (subst powmod_loop.simps) simp
    ultimately show ?thesis
      using "1.IH" [OF False] by (simp add: powmod_states_not_Nil)
  qed
qed

lemma powmod_in_range:
  assumes "1 < m"
  shows "\<exists>r. powmod base exponent m = Inr r \<and> r < m
           \<and> r = fst (snd (last (powmod_states m (base mod m) 1 exponent)))
           \<and> (\<forall>(p, r', e) \<in> set (powmod_states m (base mod m) 1 exponent). p < m \<and> r' < m)"
proof -
  from assms have m: "m \<noteq> 0"
    by auto
  then have "0 < unat m"
    by (simp add: unat_gt_0)
  then have base: "base mod m < m"
    by (simp add: word_less_nat_alt unat_mod)
  have states: "\<forall>(p, r', e) \<in> set (powmod_states m (base mod m) 1 exponent). p < m \<and> r' < m"
    using m base assms by (rule powmod_states_bounded)
  let ?r = "fst (snd (last (powmod_states m (base mod m) 1 exponent)))"
  have "last (powmod_states m (base mod m) 1 exponent)
      \<in> set (powmod_states m (base mod m) 1 exponent)"
    by (simp add: powmod_states_not_Nil)
  with states have "?r < m"
    by (auto simp: case_prod_beta)
  moreover have "powmod base exponent m = Inr ?r"
    using m by (simp add: powmod_def powmod_loop_last_state)
  ultimately show ?thesis
    using states by simp
qed

lemma squaring_states_bounded:
  assumes "n \<noteq> 0" and "pwr < n"
  shows "\<forall>(j, p) \<in> set (squaring_states i e pwr n). p < n"
  using assms
proof (induction i e pwr n rule: squaring_states.induct)
  case (1 i e pwr n)
  show ?case
  proof (cases "i < e \<and> pwr \<noteq> n - 1")
    case True
    then have "squaring_states i e pwr n
        = (i, pwr) # squaring_states (i + 1) e (mulmod pwr pwr n) n"
      by (subst squaring_states.simps) simp
    moreover have "\<forall>(j, p) \<in> set (squaring_states (i + 1) e (mulmod pwr pwr n) n). p < n"
      using True "1.IH" [OF _ _ "1.prems"(1) mulmod_less [OF "1.prems"(1)]] by simp
    ultimately show ?thesis
      using "1.prems" by simp
  next
    case False
    then have "squaring_states i e pwr n = [(i, pwr)]"
      by (subst squaring_states.simps) auto
    with "1.prems" show ?thesis
      by simp
  qed
qed

lemma squaring_states_not_Nil: "squaring_states i e pwr n \<noteq> []"
  by (subst squaring_states.simps) simp

lemma squaring_loop_last_state:
  "squaring_loop i e pwr n
   \<longleftrightarrow> (case last (squaring_states i e pwr n) of (j, p) \<Rightarrow> j < e \<and> p = n - 1)"
proof (induction i e pwr n rule: squaring_loop.induct)
  case (1 i e pwr n)
  show ?case
  proof (cases "i < e \<and> pwr \<noteq> n - 1")
    case True
    then have "squaring_states i e pwr n
        = (i, pwr) # squaring_states (i + 1) e (mulmod pwr pwr n) n"
      by (subst squaring_states.simps) simp
    moreover from True have "squaring_loop i e pwr n
        = squaring_loop (i + 1) e (mulmod pwr pwr n) n"
      by (subst squaring_loop.simps) simp
    ultimately show ?thesis
      using True "1.IH" by (simp add: squaring_states_not_Nil)
  next
    case False
    then have "squaring_states i e pwr n = [(i, pwr)]"
      by (subst squaring_states.simps) auto
    moreover from False have "squaring_loop i e pwr n \<longleftrightarrow> i < e \<and> pwr = n - 1"
      by (subst squaring_loop.simps) auto
    ultimately show ?thesis
      by simp
  qed
qed

text \<open>
  Claim C10. For every base and exponent and every modulus \<open>m > 1\<close>, \<^verbatim>\<open>powmod\<close> returns
  a value strictly less than \<open>m\<close>; that value is the \<^verbatim>\<open>result\<close> of the last loop-head
  state, and at every loop-head state the running \<^verbatim>\<open>power\<close> and \<^verbatim>\<open>result\<close> are less
  than \<open>m\<close>.
\<close>

theorem powmod_result_in_range:
  assumes "1 < m"
  shows "\<exists>r. powmod base exponent m = Inr r \<and> r < m
           \<and> r = fst (snd (last (powmod_states m (base mod m) 1 exponent)))
           \<and> (\<forall>(p, r', e) \<in> set (powmod_states m (base mod m) 1 exponent). p < m \<and> r' < m)"
  using assms by (rule powmod_in_range)

theorem powmod_result_in_range_witness:
  "1 < (7 :: u32) \<and> powmod 3 5 7 = Inr 5 \<and> (5 :: u32) < 7
   \<and> powmod_states 7 (3 mod 7) 1 5 = [(3, 1, 5), (2, 3, 2), (4, 3, 1), (2, 5, 0)]
   \<and> list_all (\<lambda>(p, r, e). p < 7 \<and> r < 7) (powmod_states 7 (3 mod 7) 1 5)"
proof -
  have states: "powmod_states 7 3 1 5 = [(3, 1, 5), (2, 3, 2), (4, 3, 1), (2, 5, 0)]"
    by (simp add: powmod_states.simps mulmod_def)
  from powmod_result_in_range [of 7 3 5] obtain r
    where "powmod 3 5 7 = Inr r" and "r < 7"
      and "r = fst (snd (last (powmod_states 7 (3 mod 7) 1 5)))"
      and "\<forall>(p, r', e) \<in> set (powmod_states 7 (3 mod 7) 1 5). p < 7 \<and> r' < 7"
    by auto
  then show ?thesis
    by (simp add: states)
qed

text \<open>
  Claim C7, as amended. For every modulus \<open>m > 0\<close>, the 64-bit product of two 32-bit
  operands \<open>x\<close> and \<open>y\<close> is the exact product, which is below \<open>2 ^ 64\<close>, and the value
  stored by \<^verbatim>\<open>(u64)x * y % m\<close> is the exact \<open>x * y mod m\<close>. For every modulus \<open>m > 1\<close>,
  the operands of the multiplications are less than \<open>m\<close>: in \<^verbatim>\<open>powmod\<close> they are the
  \<^verbatim>\<open>power\<close> and \<^verbatim>\<open>result\<close> of the loop-head states, and in the squaring loop of
  \<^verbatim>\<open>is_strong_probable_prime\<close>, which starts from a value returned by \<^verbatim>\<open>powmod\<close> for
  the same modulus, the \<^verbatim>\<open>power\<close> of its loop-head states.
\<close>

theorem modular_multiplications_exact:
  "(m \<noteq> 0 \<longrightarrow>
      unat ((ucast (x :: u32) :: u64) * (ucast (y :: u32) :: u64)) = unat x * unat y
      \<and> unat x * unat y < 2 ^ 64
      \<and> unat (mulmod x y m) = unat x * unat y mod unat m)
   \<and> (1 < m \<longrightarrow>
      (\<forall>(p, r, e) \<in> set (powmod_states m (base mod m) 1 exponent). p < m \<and> r < m)
      \<and> (\<forall>pwr. powmod base exponent m = Inr pwr \<longrightarrow>
            (\<forall>(i, p) \<in> set (squaring_states 0 e pwr m). p < m)))"
proof (intro conjI impI allI)
  show "unat (ucast x * ucast y :: u64) = unat x * unat y"
    by (rule u64_product_exact)
  have "unat x * unat y \<le> 4294967295 * 4294967295"
    using unat_u32_bound [of x] unat_u32_bound [of y] by (intro mult_le_mono) simp_all
  then show "unat x * unat y < 2 ^ 64"
    by simp
  show "unat (mulmod x y m) = unat x * unat y mod unat m" if "m \<noteq> 0"
    using that by (rule unat_mulmod)
  show "\<forall>(p, r, e) \<in> set (powmod_states m (base mod m) 1 exponent). p < m \<and> r < m" if "1 < m"
    using powmod_in_range [OF that, of base exponent] by blast
  show "\<forall>(i, p) \<in> set (squaring_states 0 e pwr m). p < m"
    if "1 < m" and "powmod base exponent m = Inr pwr" for pwr
  proof -
    from that(1) have m: "m \<noteq> 0"
      by auto
    from that powmod_in_range [OF that(1), of base exponent] have "pwr < m"
      by auto
    with m show ?thesis
      by (rule squaring_states_bounded)
  qed
qed

theorem modular_multiplications_exact_witness:
  "(7 :: u32) \<noteq> 0 \<and> 1 < (7 :: u32) \<and> powmod 3 5 7 = Inr 5
   \<and> unat ((ucast (5 :: u32) :: u64) * (ucast (5 :: u32) :: u64)) = 25
   \<and> unat (mulmod 5 5 7) = 4
   \<and> list_all (\<lambda>(p, r, e). p < 7 \<and> r < 7) (powmod_states 7 (3 mod 7) 1 5)
   \<and> list_all (\<lambda>(i, p). p < 7) (squaring_states 0 2 5 7)"
proof -
  have run: "powmod 3 5 7 = Inr 5"
    by (simp add: powmod_def powmod_loop.simps mulmod_def)
  with modular_multiplications_exact [of 7 5 5 3 5 2] show ?thesis
    by (simp add: list_all_iff)
qed

text \<open>
  Claim C7 as the spec states it, with both operands of every multiplication less than
  the modulus, fails at modulus 1: \<^verbatim>\<open>powmod(0, 1, 1)\<close> enters the loop at
  \<^verbatim>\<open>power = 0\<close>, \<^verbatim>\<open>result = 1\<close>, \<^verbatim>\<open>exponent = 1\<close>; the low bit of the exponent is
  set, so \<^verbatim>\<open>(u64)result * power\<close> is computed with \<^verbatim>\<open>result = 1\<close>, which is not less
  than the modulus.
\<close>

theorem powmod_operand_modulus_one_counterexample:
  "powmod_states 1 (0 mod 1) 1 1 = [(0, 1, 1), (0, 0, 0)]
   \<and> (1 :: u32) AND 1 \<noteq> 0 \<and> \<not> (1 :: u32) < 1"
  by (simp add: powmod_states.simps mulmod_def)

section \<open>The decomposition of \<open>n - 1\<close>\<close>

lemma ctz_bits_correct:
  assumes "x \<noteq> 0" and "unat x < 2 ^ k"
  shows "ctz_bits k x < k \<and> 2 ^ ctz_bits k x dvd unat x \<and> odd (unat x div 2 ^ ctz_bits k x)"
  using assms
proof (induction k arbitrary: x)
  case 0
  then have "unat x = 0"
    by simp
  with "0.prems"(1) show ?case
    by (simp add: unat_eq_zero)
next
  case (Suc k)
  show ?case
  proof (cases "x AND 1 \<noteq> 0")
    case True
    then have "odd (unat x)"
      by (simp add: and_one_odd)
    with True show ?thesis
      by simp
  next
    case False
    then have even: "even (unat x)"
      using and_one_odd [of x] by simp
    let ?y = "drop_bit 1 x"
    have y: "unat ?y = unat x div 2"
      by (rule unat_drop_bit_1)
    have x: "unat x = 2 * unat ?y"
      unfolding y using even by simp
    from Suc.prems(1) have "unat x \<noteq> 0"
      by (simp add: unat_eq_zero)
    with x have "unat ?y \<noteq> 0"
      by simp
    then have "?y \<noteq> 0"
      by (simp add: unat_eq_zero)
    moreover from Suc.prems(2) x have "unat ?y < 2 ^ k"
      by simp
    ultimately have IH: "ctz_bits k ?y < k \<and> 2 ^ ctz_bits k ?y dvd unat ?y
        \<and> odd (unat ?y div 2 ^ ctz_bits k ?y)"
      by (rule Suc.IH)
    from False have c: "ctz_bits (Suc k) x = Suc (ctz_bits k ?y)"
      by simp
    from IH have "2 ^ Suc (ctz_bits k ?y) dvd unat x"
      by (subst x) simp
    moreover have "unat x div 2 ^ Suc (ctz_bits k ?y) = unat ?y div 2 ^ ctz_bits k ?y"
      by (subst x) simp
    ultimately show ?thesis
      using IH by (simp only: c) simp
  qed
qed

lemma unat_minus_1: "n \<noteq> 0 \<Longrightarrow> unat (n - 1 :: u32) = unat n - 1"
  by (simp add: unat_minus_one)

lemma decomposition_correct:
  assumes "2 < (n :: u32)" and "odd (unat n)"
  shows "\<exists>c. builtin_ctzl (ucast (n - 1)) = Inr c \<and> c < 32 \<and> 1 \<le> c
           \<and> unat (of_nat c :: u32) = c
           \<and> unat n - 1 = unat (drop_bit c (n - 1)) * 2 ^ c
           \<and> odd (unat (drop_bit c (n - 1)))"
proof -
  let ?x = "ucast (n - 1) :: u64"
  let ?c = "ctz_bits 64 ?x"
  from assms(1) have n: "2 < unat n"
    by (simp add: word_less_nat_alt)
  then have "n \<noteq> 0"
    by auto
  then have n1: "unat (n - 1) = unat n - 1"
    by (rule unat_minus_1)
  have x: "unat ?x = unat n - 1"
    by (simp add: unat_ucast_u32_u64 n1)
  with n have nz: "?x \<noteq> 0"
    by (auto simp flip: unat_eq_zero)
  have "unat ?x < 2 ^ 64"
    using unat_u32_bound [of n] by (simp add: x)
  with nz have c: "?c < 64 \<and> 2 ^ ?c dvd unat ?x \<and> odd (unat ?x div 2 ^ ?c)"
    by (rule ctz_bits_correct)
  then have dvd: "2 ^ ?c dvd unat n - 1" and odd: "odd ((unat n - 1) div 2 ^ ?c)"
    by (simp_all add: x)
  from dvd n have "2 ^ ?c \<le> unat n - 1"
    by (intro dvd_imp_le) simp_all
  also have "\<dots> < 2 ^ 32"
    using unat_u32_bound [of n] by simp
  finally have pow: "(2 :: nat) ^ ?c < 2 ^ 32" .
  have c32: "?c < 32"
  proof (rule power_less_imp_less_exp)
    show "(1 :: nat) < 2"
      by simp
    show "(2 :: nat) ^ ?c < 2 ^ 32"
      by (fact pow)
  qed
  have c1: "1 \<le> ?c"
  proof (rule ccontr)
    assume "\<not> 1 \<le> ?c"
    then have "?c = 0"
      by simp
    with odd have "odd (unat n - 1)"
      by simp
    with assms(2) n show False
      by simp
  qed
  from c32 have "?c < 2 ^ 32"
    by (rule less_trans) simp
  then have cast: "unat (of_nat ?c :: u32) = ?c"
    by (simp add: unat_of_nat take_bit_nat_eq_self)
  have d: "unat (drop_bit ?c (n - 1)) = (unat n - 1) div 2 ^ ?c"
    unfolding unat_drop_bit_eq by (simp add: drop_bit_eq_div n1)
  from dvd have "unat n - 1 = (unat n - 1) div 2 ^ ?c * 2 ^ ?c"
    by simp
  with d odd cast c32 c1 nz show ?thesis
    by (simp add: builtin_ctzl_def)
qed

text \<open>
  Claim C6. For every odd \<open>n > 2\<close>, \<^verbatim>\<open>__builtin_ctzl(n - 1)\<close> is defined; with \<open>e\<close> its
  value as stored in the \<^verbatim>\<open>unsigned\<close> variable (the store changes nothing) and
  \<open>d = (n - 1) >> e\<close>: \<open>n - 1 = d * 2 ^ e\<close>, \<open>d\<close> is odd and \<open>e \<ge> 1\<close>. These are the
  \<open>d\<close> and \<open>e\<close> of \<^verbatim>\<open>is_strong_probable_prime\<close>: for a base that is not zero and does
  not divide \<open>n\<close>, the function returns what \<^verbatim>\<open>powmod(base, d, n)\<close> and the squaring
  loop bounded by \<open>e\<close> give.
\<close>

theorem decomposition_invariant:
  assumes "2 < (n :: u32)" and "odd (unat n)"
  shows "\<exists>c. builtin_ctzl (ucast (n - 1)) = Inr c
           \<and> (let e = (of_nat c :: u32); d = drop_bit (unat e) (n - 1)
              in unat e = c \<and> unat (n - 1) = unat d * 2 ^ unat e \<and> odd (unat d) \<and> 1 \<le> unat e
                 \<and> (base \<noteq> 0 \<longrightarrow> n mod base \<noteq> 0 \<longrightarrow>
                      is_strong_probable_prime base n
                      = (case powmod base d n of
                           Inl ub \<Rightarrow> Inl ub
                         | Inr pwr \<Rightarrow>
                             if pwr = 1 then Inr True
                             else Inr (squaring_loop 0 e pwr n))))"
proof -
  from decomposition_correct [OF assms] obtain c
    where c: "builtin_ctzl (ucast (n - 1)) = Inr c" "1 \<le> c"
      "unat (of_nat c :: u32) = c"
      "unat n - 1 = unat (drop_bit c (n - 1)) * 2 ^ c"
      "odd (unat (drop_bit c (n - 1)))"
    by blast
  from assms(1) have "n \<noteq> 0"
    by auto
  then have n1: "unat (n - 1) = unat n - 1"
    by (rule unat_minus_1)
  from assms(1) have gt: "\<not> n \<le> 2"
    by simp
  from assms(2) have bit: "n AND 1 \<noteq> 0"
    by (simp add: and_one_odd)
  have tied: "is_strong_probable_prime base n
      = (case powmod base (drop_bit c (n - 1)) n of
           Inl ub \<Rightarrow> Inl ub
         | Inr pwr \<Rightarrow>
             if pwr = 1 then Inr True
             else Inr (squaring_loop 0 (of_nat c) pwr n))"
    if "base \<noteq> 0" and "n mod base \<noteq> 0"
    using that gt bit c(1,3) by (simp add: is_strong_probable_prime_def Let_def)
  from c n1 tied show ?thesis
    by (simp add: Let_def)
qed

theorem decomposition_invariant_witness:
  "2 < (13 :: u32) \<and> odd (unat (13 :: u32)) \<and> (2 :: u32) \<noteq> 0 \<and> (13 :: u32) mod 2 \<noteq> 0
   \<and> builtin_ctzl (ucast (13 - 1 :: u32)) = Inr 2
   \<and> unat (of_nat 2 :: u32) = 2
   \<and> drop_bit 2 (13 - 1 :: u32) = 3
   \<and> unat (13 - 1 :: u32) = unat (3 :: u32) * 2 ^ 2
   \<and> powmod 2 3 13 = Inr 8
   \<and> squaring_loop 0 2 8 13
   \<and> is_strong_probable_prime 2 13 = Inr True"
proof -
  have ctz: "builtin_ctzl (ucast (13 - 1 :: u32)) = Inr 2"
    by code_simp
  have pm: "powmod 2 3 13 = Inr 8"
    by (simp add: powmod_def powmod_loop.simps mulmod_def)
  have sq: "squaring_loop 0 2 8 13"
    by (simp add: squaring_loop.simps mulmod_def)
  from decomposition_invariant [of 13 2] ctz pm sq
  have "is_strong_probable_prime 2 13 = Inr True"
    by (simp add: Let_def)
  with ctz pm sq show ?thesis
    by simp
qed

section \<open>The squaring loop\<close>

lemma unat_Suc_word:
  assumes "(i :: u32) < e"
  shows "unat (i + 1) = Suc (unat i)"
proof -
  from assms have "unat i < unat e"
    by (simp add: word_less_nat_alt)
  with unat_u32_bound [of e] have "unat i + 1 < 2 ^ 32"
    by simp
  then show ?thesis
    by (simp add: unat_word_ariths)
qed

lemma squaring_loop_iff:
  assumes "n \<noteq> 0" and "pwr < n"
  shows "squaring_loop i e pwr n \<longleftrightarrow>
         (\<exists>j. unat i \<le> j \<and> j < unat e \<and> unat pwr ^ (2 ^ (j - unat i)) mod unat n = unat n - 1)"
  using assms
proof (induction i e pwr n rule: squaring_loop.induct)
  case (1 i e pwr n)
  have n1: "unat (n - 1) = unat n - 1"
    using "1.prems"(1) by (rule unat_minus_1)
  from "1.prems"(2) have small: "unat pwr mod unat n = unat pwr"
    by (simp add: word_less_nat_alt)
  show ?case
  proof (cases "i < e")
    case False
    then have "\<not> unat i < unat e"
      by (simp add: word_less_nat_alt)
    moreover from False have "\<not> squaring_loop i e pwr n"
      by (subst squaring_loop.simps) simp
    ultimately show ?thesis
      by auto
  next
    case True
    then have less: "unat i < unat e"
      by (simp add: word_less_nat_alt)
    have suc: "unat (i + 1) = Suc (unat i)"
      using True by (rule unat_Suc_word)
    show ?thesis
    proof (cases "pwr = n - 1")
      case hit: True
      then have "unat pwr = unat n - 1"
        by (simp add: n1)
      then have "unat pwr ^ (2 ^ (unat i - unat i)) mod unat n = unat n - 1"
        using small by simp
      with less have "\<exists>j. unat i \<le> j \<and> j < unat e
          \<and> unat pwr ^ (2 ^ (j - unat i)) mod unat n = unat n - 1"
        by blast
      moreover from True hit have "squaring_loop i e pwr n"
        by (subst squaring_loop.simps) simp
      ultimately show ?thesis
        by simp
    next
      case miss: False
      then have ne: "unat pwr \<noteq> unat n - 1"
        by (metis n1 word_unat_eq_iff)
      let ?sq = "mulmod pwr pwr n"
      have sq: "unat ?sq = unat pwr * unat pwr mod unat n"
        using "1.prems"(1) by (rule unat_mulmod)
      have step: "unat ?sq ^ (2 ^ k) mod unat n = unat pwr ^ (2 ^ Suc k) mod unat n" for k
      proof -
        have "unat ?sq ^ (2 ^ k) mod unat n = (unat pwr * unat pwr) ^ (2 ^ k) mod unat n"
          unfolding sq by (rule power_mod)
        also have "(unat pwr * unat pwr) ^ (2 ^ k) = unat pwr ^ (2 ^ Suc k)"
          by (simp add: power_mult power2_eq_square)
        finally show ?thesis .
      qed
      have "squaring_loop i e pwr n = squaring_loop (i + 1) e ?sq n"
        using True miss by (subst squaring_loop.simps) simp
      also have "\<dots> \<longleftrightarrow> (\<exists>j. Suc (unat i) \<le> j \<and> j < unat e
          \<and> unat ?sq ^ (2 ^ (j - Suc (unat i))) mod unat n = unat n - 1)"
        using "1.IH" [OF True miss "1.prems"(1) mulmod_less [OF "1.prems"(1)]]
        by (simp only: suc)
      also have "\<dots> \<longleftrightarrow> (\<exists>j. unat i \<le> j \<and> j < unat e
          \<and> unat pwr ^ (2 ^ (j - unat i)) mod unat n = unat n - 1)"
      proof
        assume "\<exists>j. Suc (unat i) \<le> j \<and> j < unat e
          \<and> unat ?sq ^ (2 ^ (j - Suc (unat i))) mod unat n = unat n - 1"
        then obtain j where j: "Suc (unat i) \<le> j" "j < unat e"
          and eq: "unat ?sq ^ (2 ^ (j - Suc (unat i))) mod unat n = unat n - 1"
          by blast
        from j(1) have "Suc (j - Suc (unat i)) = j - unat i"
          by simp
        with eq step [of "j - Suc (unat i)"]
        have "unat pwr ^ (2 ^ (j - unat i)) mod unat n = unat n - 1"
          by simp
        with j show "\<exists>j. unat i \<le> j \<and> j < unat e
          \<and> unat pwr ^ (2 ^ (j - unat i)) mod unat n = unat n - 1"
          by (intro exI [of _ j]) simp
      next
        assume "\<exists>j. unat i \<le> j \<and> j < unat e
          \<and> unat pwr ^ (2 ^ (j - unat i)) mod unat n = unat n - 1"
        then obtain j where j: "unat i \<le> j" "j < unat e"
          and eq: "unat pwr ^ (2 ^ (j - unat i)) mod unat n = unat n - 1"
          by blast
        have "j \<noteq> unat i"
        proof
          assume "j = unat i"
          with eq small have "unat pwr = unat n - 1"
            by simp
          with ne show False
            by simp
        qed
        with j(1) have j': "Suc (unat i) \<le> j"
          by simp
        then have "Suc (j - Suc (unat i)) = j - unat i"
          by simp
        with eq step [of "j - Suc (unat i)"]
        have "unat ?sq ^ (2 ^ (j - Suc (unat i))) mod unat n = unat n - 1"
          by simp
        with j' j(2) show "\<exists>j. Suc (unat i) \<le> j \<and> j < unat e
          \<and> unat ?sq ^ (2 ^ (j - Suc (unat i))) mod unat n = unat n - 1"
          by (intro exI [of _ j]) simp
      qed
      finally show ?thesis .
    qed
  qed
qed

lemma odd_part_unique:
  fixes d d' e e' :: nat
  assumes "odd d" and "odd d'" and "d * 2 ^ e = d' * 2 ^ e'"
  shows "d = d' \<and> e = e'"
proof -
  have aux: "b \<le> a" if "odd c" and "odd c'" and "c * 2 ^ a = c' * 2 ^ b" for a b c c' :: nat
  proof (rule ccontr)
    assume "\<not> b \<le> a"
    then have "b = a + Suc (b - Suc a)"
      by simp
    then obtain k where b: "b = a + Suc k" ..
    have "(2 :: nat) ^ b = 2 ^ Suc k * 2 ^ a"
      by (simp only: b power_add mult.commute)
    with that(3) have "c * 2 ^ a = c' * (2 ^ Suc k * 2 ^ a)"
      by (simp only:)
    then have "c * 2 ^ a = (c' * 2 ^ Suc k) * 2 ^ a"
      by (simp only: mult.assoc)
    then have "c = c' * 2 ^ Suc k"
      by (simp only: mult_cancel2) simp
    then have "even c"
      by simp
    with that(1) show False
      by simp
  qed
  have "e' \<le> e"
    using assms by (rule aux)
  moreover have "e \<le> e'"
    using assms(2) assms(1) assms(3) [symmetric] by (rule aux)
  ultimately have e: "e = e'"
    by simp
  with assms(3) have "d = d'"
    by simp
  with e show ?thesis
    by simp
qed

section \<open>Results on \<^verbatim>\<open>is_strong_probable_prime\<close>\<close>

lemma powmod_unat:
  assumes "1 < m"
  shows "\<exists>r. powmod base exponent m = Inr r \<and> r < m
           \<and> unat r = unat base ^ unat exponent mod unat m"
proof -
  from assms have m: "m \<noteq> 0"
    by auto
  then have "0 < unat m"
    by (simp add: unat_gt_0)
  then have "unat base ^ unat exponent mod unat m < unat m"
    by simp
  moreover from this unat_u32_bound [of m]
  have "unat base ^ unat exponent mod unat m < 2 ^ 32"
    by simp
  then have "unat (of_nat (unat base ^ unat exponent mod unat m) :: u32)
      = unat base ^ unat exponent mod unat m"
    by (simp add: unat_of_nat take_bit_nat_eq_self)
  ultimately show ?thesis
    using powmod_value [OF m, of exponent base] assms by (simp add: word_less_nat_alt)
qed

lemma is_strong_probable_prime_test:
  assumes "2 < n" and "odd (unat n)" and "base \<noteq> 0" and "n mod base \<noteq> 0"
    and "odd d" and "unat n - 1 = d * 2 ^ e"
  shows "is_strong_probable_prime base n
         = Inr (unat base ^ d mod unat n = 1
                \<or> (\<exists>i<e. unat base ^ (d * 2 ^ i) mod unat n = unat n - 1))"
proof -
  from assms(1) have n: "2 < unat n"
    by (simp add: word_less_nat_alt)
  then have nz: "n \<noteq> 0" and n1: "1 < n"
    by (auto simp: word_less_nat_alt)
  from decomposition_correct [OF assms(1,2)] obtain c
    where ctz: "builtin_ctzl (ucast (n - 1)) = Inr c"
      and cast: "unat (of_nat c :: u32) = c"
      and dec: "unat n - 1 = unat (drop_bit c (n - 1)) * 2 ^ c"
      and odd: "odd (unat (drop_bit c (n - 1)))"
    by blast
  from odd assms(5) dec assms(6) have same: "unat (drop_bit c (n - 1)) = d \<and> c = e"
    by (intro odd_part_unique) simp_all
  then have d: "unat (drop_bit e (n - 1)) = d" and c: "c = e"
    by blast+
  from cast c have cast_e: "unat (of_nat e :: u32) = e"
    by simp
  from powmod_unat [OF n1, of base "drop_bit e (n - 1)"] obtain p
    where pm: "powmod base (drop_bit e (n - 1)) n = Inr p"
      and p: "p < n" and pv: "unat p = unat base ^ d mod unat n"
    using d by auto
  have one: "p = 1 \<longleftrightarrow> unat base ^ d mod unat n = 1"
    by (simp add: word_unat_eq_iff pv)
  have "squaring_loop 0 (of_nat e) p n \<longleftrightarrow>
      (\<exists>j. j < e \<and> unat p ^ (2 ^ j) mod unat n = unat n - 1)"
    using squaring_loop_iff [OF nz p, of 0 "of_nat e"] by (simp add: cast_e)
  also have "\<dots> \<longleftrightarrow> (\<exists>i<e. unat base ^ (d * 2 ^ i) mod unat n = unat n - 1)"
    by (simp add: pv power_mod power_mult)
  finally have loop: "squaring_loop 0 (of_nat e) p n \<longleftrightarrow>
      (\<exists>i<e. unat base ^ (d * 2 ^ i) mod unat n = unat n - 1)" .
  from assms(2) have "n AND 1 \<noteq> 0"
    by (simp add: and_one_odd)
  moreover from assms(1) have "\<not> n \<le> 2"
    by simp
  ultimately show ?thesis
    using assms(3,4) ctz [unfolded c] pm one loop
    by (simp add: is_strong_probable_prime_def cast_e Let_def)
qed

lemma is_strong_probable_prime_defined:
  "(base \<noteq> 0 \<longrightarrow> (\<exists>b. is_strong_probable_prime base n = Inr b))
   \<and> is_strong_probable_prime base n \<noteq> Inl Ctz_Of_Zero"
proof (cases "n \<le> 2 \<or> n AND 1 = 0 \<or> base = 0 \<or> n mod base = 0")
  case True
  have "\<exists>b. is_strong_probable_prime base n = Inr b \<or>
      (base = 0 \<and> is_strong_probable_prime base n = Inl Division_By_Zero)"
  proof (cases "n \<le> 2")
    case True
    then have "is_strong_probable_prime base n = Inr (n = 2)"
      by (simp add: is_strong_probable_prime_def)
    then show ?thesis
      by blast
  next
    case n: False
    show ?thesis
    proof (cases "n AND 1 = 0")
      case True
      with n have "is_strong_probable_prime base n = Inr False"
        by (simp add: is_strong_probable_prime_def)
      then show ?thesis
        by blast
    next
      case odd: False
      show ?thesis
      proof (cases "base = 0")
        case True
        with n odd have "is_strong_probable_prime base n = Inl Division_By_Zero"
          by (simp add: is_strong_probable_prime_def)
        with True show ?thesis
          by blast
      next
        case False
        with True n odd have "n mod base = 0"
          by simp
        with n odd False have "is_strong_probable_prime base n = Inr (n = base)"
          by (simp add: is_strong_probable_prime_def)
        then show ?thesis
          by blast
      qed
    qed
  qed
  then show ?thesis
    by auto
next
  case False
  then have "2 < n" and "odd (unat n)"
    using and_one_odd [of n] by auto
  from decomposition_correct [OF this] obtain c
    where ctz: "builtin_ctzl (ucast (n - 1)) = Inr c"
    by blast
  from \<open>2 < n\<close> have "1 < n"
    by (simp add: word_less_nat_alt)
  from powmod_unat [OF this, of base "drop_bit (unat (of_nat c :: u32)) (n - 1)"] obtain p
    where "powmod base (drop_bit (unat (of_nat c :: u32)) (n - 1)) n = Inr p"
    by blast
  with False ctz have "is_strong_probable_prime base n
      = Inr (p = 1 \<or> squaring_loop 0 (of_nat c) p n)"
    by (simp add: is_strong_probable_prime_def Let_def)
  then show ?thesis
    by auto
qed

lemma is_strong_probable_prime_multiple:
  assumes "2 < n" and "odd (unat n)" and "base \<noteq> 0" and "unat base dvd unat n"
  shows "is_strong_probable_prime base n = Inr (n = base)"
proof -
  from assms(4) have "unat (n mod base) = 0"
    by (simp add: unat_mod)
  then have "n mod base = 0"
    by (simp add: unat_eq_zero)
  moreover from assms(2) have "n AND 1 \<noteq> 0"
    by (simp add: and_one_odd)
  moreover from assms(1) have "\<not> n \<le> 2"
    by simp
  ultimately show ?thesis
    using assms(3) by (simp add: is_strong_probable_prime_def)
qed

lemma prime_nat_nonzero: "prime_nat (unat a) \<Longrightarrow> a \<noteq> 0"
  by (auto simp: prime_nat_def)

lemma not_dvd_mod_nonzero:
  assumes "\<not> unat a dvd unat (n :: u32)"
  shows "n mod a \<noteq> 0"
proof
  assume "n mod a = 0"
  then have "unat (n mod a) = 0"
    by simp
  then have "unat n mod unat a = 0"
    by (simp add: unat_mod)
  with assms show False
    by (simp add: dvd_eq_mod_eq_0)
qed

text \<open>
  Claim C2. For every prime base \<open>a\<close> and every odd \<open>n > 2\<close> not divisible by \<open>a\<close>,
  writing \<open>n - 1 = d * 2 ^ e\<close> with \<open>d\<close> odd, \<^verbatim>\<open>is_strong_probable_prime(a, n)\<close> returns
  true if and only if \<open>a ^ d mod n = 1\<close> or \<open>a ^ (d * 2 ^ i) mod n = n - 1\<close> for some
  \<open>i < e\<close>; it runs into no undefined operation.
\<close>

theorem strong_probable_prime_criterion:
  assumes "prime_nat (unat a)" and "2 < n" and "odd (unat n)" and "\<not> unat a dvd unat n"
    and "odd d" and "unat n - 1 = d * 2 ^ e"
  shows "is_strong_probable_prime a n
         = Inr (unat a ^ d mod unat n = 1
                \<or> (\<exists>i<e. unat a ^ (d * 2 ^ i) mod unat n = unat n - 1))"
  using assms(2,3) prime_nat_nonzero [OF assms(1)] not_dvd_mod_nonzero [OF assms(4)] assms(5,6)
  by (rule is_strong_probable_prime_test)

theorem strong_probable_prime_criterion_witness:
  "prime_nat (unat (2 :: u32)) \<and> 2 < (13 :: u32) \<and> odd (unat (13 :: u32))
   \<and> \<not> unat (2 :: u32) dvd unat (13 :: u32) \<and> odd (3 :: nat)
   \<and> unat (13 :: u32) - 1 = 3 * 2 ^ 2
   \<and> (unat (2 :: u32) ^ 3 mod unat (13 :: u32) \<noteq> 1)
   \<and> (unat (2 :: u32) ^ (3 * 2 ^ 1) mod unat (13 :: u32) = unat (13 :: u32) - 1)
   \<and> is_strong_probable_prime 2 13 = Inr True"
proof -
  have p: "prime_nat (unat (2 :: u32))"
    by (simp add: prime_nat_def)
  have hit: "unat (2 :: u32) ^ (3 * 2 ^ 1) mod unat (13 :: u32) = unat (13 :: u32) - 1"
    by simp
  have "1 < (2 :: nat)"
    by simp
  with hit have "\<exists>i<2. unat (2 :: u32) ^ (3 * 2 ^ i) mod unat (13 :: u32) = unat (13 :: u32) - 1"
    by blast
  with strong_probable_prime_criterion [of 2 13 3 2, OF p] have "is_strong_probable_prime 2 13 = Inr True"
    by simp
  with p show ?thesis
    by simp
qed

text \<open>
  Claim C5. For every prime base \<open>a\<close> and every odd \<open>n > 2\<close> divisible by \<open>a\<close>,
  \<^verbatim>\<open>is_strong_probable_prime(a, n)\<close> returns true if and only if \<open>n = a\<close>.
\<close>

theorem multiple_of_base:
  assumes "prime_nat (unat a)" and "2 < n" and "odd (unat n)" and "unat a dvd unat n"
  shows "is_strong_probable_prime a n = Inr (n = a)"
  using assms(2,3) prime_nat_nonzero [OF assms(1)] assms(4)
  by (rule is_strong_probable_prime_multiple)

theorem multiple_of_base_witness:
  "prime_nat (unat (3 :: u32)) \<and> 2 < (9 :: u32) \<and> odd (unat (9 :: u32))
   \<and> unat (3 :: u32) dvd unat (9 :: u32) \<and> is_strong_probable_prime 3 9 = Inr False
   \<and> 2 < (3 :: u32) \<and> is_strong_probable_prime 3 3 = Inr True"
proof -
  have p: "prime_nat (unat (3 :: u32))"
    by code_simp
  with multiple_of_base [of 3 9, OF p] multiple_of_base [of 3 3, OF p] show ?thesis
    by simp
qed

text \<open>
  Claim C8. For no pair \<open>(base, n)\<close> does \<^verbatim>\<open>is_strong_probable_prime\<close> end in
  \<^verbatim>\<open>__builtin_ctzl\<close> applied to zero: past the two tests \<^verbatim>\<open>n <= 2\<close> and
  \<^verbatim>\<open>!(n & 1)\<close>, which every path to the bit scan has passed, \<open>n - 1\<close> is non-zero, and
  so is its 64-bit widening, the argument of the bit scan.
\<close>

theorem ctz_of_zero_unreachable:
  "is_strong_probable_prime base n \<noteq> Inl Ctz_Of_Zero
   \<and> (\<not> n \<le> 2 \<longrightarrow> n AND 1 \<noteq> 0 \<longrightarrow>
        n - 1 \<noteq> 0 \<and> (ucast (n - 1) :: u64) \<noteq> 0
        \<and> builtin_ctzl (ucast (n - 1)) \<noteq> Inl Ctz_Of_Zero)"
proof (intro conjI impI)
  show "is_strong_probable_prime base n \<noteq> Inl Ctz_Of_Zero"
    using is_strong_probable_prime_defined [of base n] by simp
next
  assume "\<not> n \<le> 2" and "n AND 1 \<noteq> 0"
  then have "2 < n" and "odd (unat n)"
    by (simp_all add: and_one_odd)
  from decomposition_correct [OF this] obtain c
    where c: "builtin_ctzl (ucast (n - 1)) = Inr c"
    by blast
  then show "builtin_ctzl (ucast (n - 1)) \<noteq> Inl Ctz_Of_Zero"
    by simp
  from c show "(ucast (n - 1) :: u64) \<noteq> 0"
    by (auto simp: builtin_ctzl_def split: if_splits)
  then show "n - 1 \<noteq> 0"
    by auto
qed

theorem ctz_of_zero_unreachable_witness:
  "\<not> (13 :: u32) \<le> 2 \<and> (13 :: u32) AND 1 \<noteq> 0 \<and> (13 :: u32) - 1 \<noteq> 0
   \<and> (ucast ((13 :: u32) - 1) :: u64) \<noteq> 0
   \<and> builtin_ctzl (ucast ((13 :: u32) - 1)) \<noteq> Inl Ctz_Of_Zero
   \<and> is_strong_probable_prime 2 13 \<noteq> Inl Ctz_Of_Zero"
  using ctz_of_zero_unreachable [of 2 13] by simp

section \<open>Primes\<close>

text \<open>
  Facts on \<open>prime_nat\<close> that the strong probable prime test rests on: Euclid's lemma,
  Fermat's little theorem, and that 1 has no square roots modulo a prime other than 1
  and \<open>-1\<close>.
\<close>

lemma prime_nat_divisors:
  assumes "prime_nat p" and "d dvd p"
  shows "d = 1 \<or> d = p"
proof -
  from assms(1) have p: "1 < p" and none: "\<forall>d \<in> {2..<p}. \<not> d dvd p"
    by (simp_all add: prime_nat_def)
  from assms(2) p have "d \<le> p"
    by (intro dvd_imp_le) simp_all
  have "d \<noteq> 0"
  proof
    assume "d = 0"
    with assms(2) have "p = 0"
      by simp
    with p show False
      by simp
  qed
  with none assms(2) have "\<not> (2 \<le> d \<and> d < p)"
    by auto
  with \<open>d \<le> p\<close> \<open>d \<noteq> 0\<close> show ?thesis
    by arith
qed

lemma prime_nat_coprime:
  assumes "prime_nat p" and "\<not> p dvd a"
  shows "coprime p a"
proof -
  have "gcd p a dvd p"
    by simp
  with assms(1) have "gcd p a = 1 \<or> gcd p a = p"
    by (rule prime_nat_divisors)
  moreover have "gcd p a \<noteq> p"
  proof
    assume "gcd p a = p"
    then have "p dvd a"
      by (metis gcd_dvd2)
    with assms(2) show False ..
  qed
  ultimately have "gcd p a = 1"
    by simp
  then show ?thesis
    by (simp add: coprime_iff_gcd_eq_1)
qed

lemma prime_nat_dvd_mult:
  assumes "prime_nat p" and "p dvd a * b"
  shows "p dvd a \<or> p dvd b"
proof (cases "p dvd a")
  case True
  then show ?thesis ..
next
  case False
  with assms(1) have "coprime p a"
    by (rule prime_nat_coprime)
  with assms(2) have "p dvd b"
    by (simp add: coprime_dvd_mult_right_iff)
  then show ?thesis ..
qed

lemma prime_nat_dvd_choose:
  assumes "prime_nat p" and "0 < k" and "k < p"
  shows "p dvd p choose k"
proof -
  have "k * (p choose k) = p * ((p - 1) choose (k - 1))"
    using assms(2) by (rule times_binomial_minus1_eq)
  then have "p dvd k * (p choose k)"
    by simp
  with assms(1) have "p dvd k \<or> p dvd p choose k"
    by (rule prime_nat_dvd_mult)
  moreover from assms(2,3) have "\<not> p dvd k"
    by (auto dest: dvd_imp_le)
  ultimately show ?thesis
    by simp
qed

lemma prime_nat_power_Suc:
  assumes "prime_nat p"
  shows "(a + 1) ^ p mod p = (a ^ p + 1) mod p"
proof -
  from assms obtain n where p: "p = Suc n"
    by (cases p) (simp_all add: prime_nat_def)
  let ?f = "\<lambda>k. (p choose k) * a ^ k"
  have "(a + 1) ^ p = (\<Sum>k\<le>p. ?f k)"
    using binomial_ring [of a 1 p] by simp
  also have "\<dots> = (\<Sum>k\<le>n. ?f k) + ?f p"
    by (simp add: p)
  also have "(\<Sum>k\<le>n. ?f k) = ?f 0 + (\<Sum>k = Suc 0..n. ?f k)"
    by (simp add: atMost_atLeast0 sum.atLeast_Suc_atMost)
  finally have expand: "(a + 1) ^ p = (a ^ p + 1) + (\<Sum>k = Suc 0..n. ?f k)"
    by simp
  have "p dvd (\<Sum>k = Suc 0..n. ?f k)"
  proof (rule dvd_sum)
    fix k
    assume "k \<in> {Suc 0..n}"
    then have "0 < k" and "k < p"
      by (simp_all add: p)
    with assms have "p dvd p choose k"
      by (rule prime_nat_dvd_choose)
    then show "p dvd ?f k"
      by simp
  qed
  then have "(\<Sum>k = Suc 0..n. ?f k) mod p = 0"
    by simp
  then have "((a ^ p + 1) + (\<Sum>k = Suc 0..n. ?f k)) mod p = (a ^ p + 1) mod p"
    by (metis add.right_neutral mod_add_right_eq)
  with expand show ?thesis
    by simp
qed

lemma fermat_power:
  assumes "prime_nat p"
  shows "a ^ p mod p = a mod p"
proof (induction a)
  case 0
  from assms have "0 < p"
    by (simp add: prime_nat_def)
  then have zero: "(0 :: nat) ^ p = 0"
    by simp
  show ?case
    unfolding zero by simp
next
  case (Suc a)
  have "Suc a ^ p mod p = (a ^ p + 1) mod p"
    using prime_nat_power_Suc [OF assms, of a] by simp
  also have "\<dots> = (a ^ p mod p + 1) mod p"
    by (simp add: mod_Suc_eq)
  also have "\<dots> = (a mod p + 1) mod p"
    by (simp only: Suc.IH)
  also have "\<dots> = Suc a mod p"
    by (simp add: mod_Suc_eq)
  finally show ?case .
qed

lemma fermat_little:
  assumes "prime_nat p" and "\<not> p dvd a"
  shows "a ^ (p - 1) mod p = 1"
proof -
  from assms(1) have p: "1 < p"
    by (simp add: prime_nat_def)
  from assms(2) have a: "0 < a"
    by (cases a) simp_all
  then have pos: "1 \<le> a ^ (p - 1)"
    by simp
  from p have "a ^ p = a * a ^ (p - 1)"
    by (cases p) simp_all
  then have "a * a ^ (p - 1) mod p = a * 1 mod p"
    using fermat_power [OF assms(1), of a] by simp
  moreover have "a * 1 \<le> a * a ^ (p - 1)"
    using pos by (intro mult_le_mono2)
  ultimately have "p dvd a * a ^ (p - 1) - a * 1"
    by (simp only: mod_eq_dvd_iff_nat)
  then have "p dvd a * (a ^ (p - 1) - 1)"
    by (simp add: diff_mult_distrib2)
  with assms(1) have "p dvd a \<or> p dvd a ^ (p - 1) - 1"
    by (rule prime_nat_dvd_mult)
  with assms(2) have "p dvd a ^ (p - 1) - 1"
    by simp
  with pos have "a ^ (p - 1) mod p = 1 mod p"
    by (simp only: mod_eq_dvd_iff_nat)
  with p show ?thesis
    by simp
qed

lemma prime_nat_square_root_of_one:
  assumes "prime_nat p" and "x < p" and "x * x mod p = 1"
  shows "x = 1 \<or> x = p - 1"
proof -
  from assms(1) have p: "1 < p"
    by (simp add: prime_nat_def)
  have x: "1 \<le> x"
  proof (rule ccontr)
    assume "\<not> 1 \<le> x"
    then have "x = 0"
      by simp
    with assms(3) show False
      by simp
  qed
  then have "1 \<le> x * x"
    by (simp add: Suc_le_eq)
  moreover from assms(3) p have "x * x mod p = 1 mod p"
    by simp
  ultimately have "p dvd x * x - 1"
    by (simp only: mod_eq_dvd_iff_nat)
  moreover from x have "x * x - 1 = (x - 1) * (x + 1)"
    by (simp add: algebra_simps)
  ultimately have "p dvd (x - 1) * (x + 1)"
    by simp
  with assms(1) have "p dvd x - 1 \<or> p dvd x + 1"
    by (rule prime_nat_dvd_mult)
  then show ?thesis
  proof
    assume "p dvd x - 1"
    moreover from assms(2) have "x - 1 < p"
      by simp
    ultimately have "x - 1 = 0"
      by (auto dest: dvd_imp_le)
    with x show ?thesis
      by simp
  next
    assume "p dvd x + 1"
    then have "p \<le> x + 1"
      by (rule dvd_imp_le) simp
    with assms(2) show ?thesis
      by arith
  qed
qed

lemma prime_nat_squaring_chain:
  assumes "prime_nat p" and "a ^ (d * 2 ^ e) mod p = 1"
  shows "a ^ d mod p = 1 \<or> (\<exists>i<e. a ^ (d * 2 ^ i) mod p = p - 1)"
  using assms(2)
proof (induction e)
  case 0
  then show ?case
    by simp
next
  case (Suc e)
  from assms(1) have p: "0 < p"
    by (simp add: prime_nat_def)
  let ?x = "a ^ (d * 2 ^ e) mod p"
  have "d * 2 ^ Suc e = d * 2 ^ e + d * 2 ^ e"
    by simp
  then have "a ^ (d * 2 ^ Suc e) = a ^ (d * 2 ^ e) * a ^ (d * 2 ^ e)"
    by (simp only: power_add)
  then have "?x * ?x mod p = a ^ (d * 2 ^ Suc e) mod p"
    by (simp add: mod_mult_eq)
  with Suc.prems have "?x * ?x mod p = 1"
    by simp
  moreover from p have "?x < p"
    by simp
  ultimately have "?x = 1 \<or> ?x = p - 1"
    by (intro prime_nat_square_root_of_one assms(1))
  then show ?case
  proof
    assume "?x = 1"
    then have "a ^ d mod p = 1 \<or> (\<exists>i<e. a ^ (d * 2 ^ i) mod p = p - 1)"
      by (rule Suc.IH)
    then show ?thesis
      by (auto intro: less_SucI)
  next
    assume "?x = p - 1"
    then show ?thesis
      by blast
  qed
qed

lemma prime_nat_strong_probable_prime:
  assumes "prime_nat p" and "\<not> p dvd a" and "p - 1 = d * 2 ^ e"
  shows "a ^ d mod p = 1 \<or> (\<exists>i<e. a ^ (d * 2 ^ i) mod p = p - 1)"
proof -
  from assms(1,2) have "a ^ (p - 1) mod p = 1"
    by (rule fermat_little)
  with assms(3) have "a ^ (d * 2 ^ e) mod p = 1"
    by simp
  with assms(1) show ?thesis
    by (rule prime_nat_squaring_chain)
qed

section \<open>Results on \<^verbatim>\<open>is_prime\<close>\<close>

text \<open>
  \<^verbatim>\<open>is_prime\<close> runs into no undefined operation. It accepts every prime: a prime passes
  the trial division, and, when it is greater than 61, the three strong probable prime
  tests. Below \<open>67\<^sup>2 = 4489\<close> every odd composite has an odd divisor between 3 and 61
  and is rejected by the trial division, so there the verdict of \<^verbatim>\<open>is_prime\<close> is exact.
\<close>

lemma and_then_Inr:
  assumes "a = Inr x" and "b = Inr y"
  shows "and_then a b = Inr (x \<and> y)"
  using assms by (simp add: and_then_def)

lemma is_prime_defined: "\<exists>b. is_prime n = Inr b"
proof -
  have sprp: "\<exists>b. is_strong_probable_prime base n = Inr b" if "base \<noteq> 0" for base
    using is_strong_probable_prime_defined [of base n] that by simp
  obtain b2 where b2: "is_strong_probable_prime 2 n = Inr b2"
    using sprp [of 2] by auto
  obtain b7 where b7: "is_strong_probable_prime 7 n = Inr b7"
    using sprp [of 7] by auto
  obtain b61 where b61: "is_strong_probable_prime 61 n = Inr b61"
    using sprp [of 61] by auto
  have "and_then (and_then (is_strong_probable_prime 2 n) (is_strong_probable_prime 7 n))
          (is_strong_probable_prime 61 n) = Inr ((b2 \<and> b7) \<and> b61)"
    by (intro and_then_Inr b2 b7 b61)
  then have "is_prime n = Inr (if n \<le> 2 then n = 2 else if n AND 1 = 0 then False
      else case trial_division 3 n of Some b \<Rightarrow> b | None \<Rightarrow> (b2 \<and> b7) \<and> b61)"
    by (simp add: is_prime_def split: option.split)
  then show ?thesis
    by blast
qed

lemma is_prime_0: "is_prime 0 = Inr False"
  by (simp add: is_prime_def)

lemma unat_plus_2:
  assumes "(i :: u32) \<le> 61"
  shows "unat (i + 2) = unat i + 2"
proof -
  from assms have "unat i \<le> 61"
    by (simp add: word_le_nat_alt)
  then show ?thesis
    by (simp add: unat_word_ariths)
qed

lemma mod_word_dvd: "(n :: u32) mod i = 0 \<longleftrightarrow> unat i dvd unat n"
proof -
  have "n mod i = 0 \<longleftrightarrow> unat (n mod i) = 0"
    by (simp add: unat_eq_zero)
  also have "\<dots> \<longleftrightarrow> unat n mod unat i = 0"
    by (simp add: unat_mod)
  also have "\<dots> \<longleftrightarrow> unat i dvd unat n"
    by (simp add: dvd_eq_mod_eq_0)
  finally show ?thesis .
qed

lemma trial_division_None:
  assumes "trial_division i n = None"
    and "unat i \<le> k" and "k \<le> 61" and "even (k - unat i)"
  shows "unat n \<noteq> k \<and> \<not> k dvd unat n"
  using assms
proof (induction i n rule: trial_division.induct)
  case (1 i n)
  from "1.prems"(2,3) have i: "i \<le> 61"
    by (simp add: word_le_nat_alt)
  with "1.prems"(1) have ne: "n \<noteq> i" and nd: "n mod i \<noteq> 0"
    and rest: "trial_division (i + 2) n = None"
    by (subst (asm) trial_division.simps, simp split: if_splits)+
  show ?case
  proof (cases "k = unat i")
    case True
    from ne have "unat n \<noteq> unat i"
      by (simp add: word_unat_eq_iff)
    with nd [unfolded mod_word_dvd] True show ?thesis
      by simp
  next
    case False
    with "1.prems"(2,4) have "unat i + 2 \<le> k"
      by (cases "k = Suc (unat i)") simp_all
    moreover from this "1.prems"(4) have "even (k - (unat i + 2))"
      by simp
    ultimately show ?thesis
      using "1.IH" [OF i ne nd rest _ "1.prems"(3)] by (simp add: unat_plus_2 [OF i])
  qed
qed

lemma trial_division_prime:
  assumes "prime_nat (unat n)" and "2 \<le> unat i"
  shows "trial_division i n \<noteq> Some False"
  using assms
proof (induction i n rule: trial_division.induct)
  case (1 i n)
  show ?case
  proof (cases "i \<le> 61")
    case False
    then have "trial_division i n = None"
      by (subst trial_division.simps) simp
    then show ?thesis
      by simp
  next
    case i: True
    show ?thesis
    proof (cases "n = i")
      case True
      with i have "trial_division i n = Some True"
        by (subst trial_division.simps) simp
      then show ?thesis
        by simp
    next
      case ne: False
      have nd: "n mod i \<noteq> 0"
      proof
        assume "n mod i = 0"
        then have "unat i dvd unat n"
          by (simp add: mod_word_dvd)
        with "1.prems"(1) have "unat i = 1 \<or> unat i = unat n"
          by (rule prime_nat_divisors)
        with "1.prems"(2) ne show False
          by (simp add: word_unat_eq_iff)
      qed
      from i ne nd have "trial_division i n = trial_division (i + 2) n"
        by (subst trial_division.simps) simp
      moreover have "trial_division (i + 2) n \<noteq> Some False"
        using i ne nd "1.prems" by (intro "1.IH") (simp_all add: unat_plus_2)
      ultimately show ?thesis
        by simp
    qed
  qed
qed

lemma prime_nat_odd:
  assumes "prime_nat p" and "2 < p"
  shows "odd p"
proof
  assume "even p"
  with assms(1) have "(2 :: nat) = 1 \<or> 2 = p"
    by (intro prime_nat_divisors)
  with assms(2) show False
    by simp
qed

lemma is_strong_probable_prime_prime:
  assumes "prime_nat (unat n)" and "2 < n" and "1 < base" and "base < n"
  shows "is_strong_probable_prime base n = Inr True"
proof -
  from assms(2) have n: "2 < unat n"
    by (simp add: word_less_nat_alt)
  with assms(1) have odd: "odd (unat n)"
    by (rule prime_nat_odd)
  from assms(3,4) have base: "1 < unat base" "unat base < unat n"
    by (simp_all add: word_less_nat_alt)
  then have not_dvd: "\<not> unat n dvd unat base"
    by (auto dest: dvd_imp_le)
  have "\<not> unat base dvd unat n"
  proof
    assume "unat base dvd unat n"
    with assms(1) have "unat base = 1 \<or> unat base = unat n"
      by (rule prime_nat_divisors)
    with base show False
      by simp
  qed
  then have nd: "n mod base \<noteq> 0"
    by (simp add: mod_word_dvd)
  from base(1) have nz: "base \<noteq> 0"
    by auto
  from decomposition_correct [OF assms(2) odd] obtain c
    where dec: "unat n - 1 = unat (drop_bit c (n - 1)) * 2 ^ c"
      and d: "odd (unat (drop_bit c (n - 1)))"
    by blast
  let ?d = "unat (drop_bit c (n - 1))"
  from assms(1) not_dvd dec
  have "unat base ^ ?d mod unat n = 1
      \<or> (\<exists>i<c. unat base ^ (?d * 2 ^ i) mod unat n = unat n - 1)"
    by (rule prime_nat_strong_probable_prime)
  with is_strong_probable_prime_test [OF assms(2) odd nz nd d dec] show ?thesis
    by simp
qed

lemma is_prime_large:
  assumes "2 < n" and "odd (unat n)" and "trial_division 3 n = None"
  shows "61 < unat n"
proof (rule ccontr)
  assume "\<not> 61 < unat n"
  then have le: "unat n \<le> 61"
    by simp
  from assms(1) have "2 < unat n"
    by (simp add: word_less_nat_alt)
  then have ge: "unat (3 :: u32) \<le> unat n"
    by simp
  moreover from assms(2) ge have "even (unat n - unat (3 :: u32))"
    by simp
  ultimately have "unat n \<noteq> unat n \<and> \<not> unat n dvd unat n"
    using le by (intro trial_division_None [OF assms(3)])
  then show False
    by simp
qed

lemma is_prime_accepts_primes:
  assumes "prime_nat (unat n)"
  shows "is_prime n = Inr True"
proof (cases "n \<le> 2")
  case True
  moreover from assms have "2 \<le> unat n"
    by (simp add: prime_nat_def)
  ultimately have "unat n = 2"
    by (simp add: word_le_nat_alt)
  then have "n = 2"
    by (simp add: word_unat_eq_iff)
  then show ?thesis
    by (simp add: is_prime_def)
next
  case False
  then have n: "2 < n"
    by simp
  then have "2 < unat n"
    by (simp add: word_less_nat_alt)
  with assms have odd: "odd (unat n)"
    by (rule prime_nat_odd)
  then have bit: "n AND 1 \<noteq> 0"
    by (simp add: and_one_odd)
  show ?thesis
  proof (cases "trial_division 3 n")
    case (Some b)
    moreover have "trial_division 3 n \<noteq> Some False"
      using assms by (rule trial_division_prime) simp
    ultimately have "trial_division 3 n = Some True"
      by simp
    with False bit show ?thesis
      by (simp add: is_prime_def)
  next
    case None
    with n odd have "61 < unat n"
      by (rule is_prime_large)
    then have "2 < n" and "7 < n" and "61 < n"
      by (simp_all add: word_less_nat_alt)
    then have "is_strong_probable_prime 2 n = Inr True"
      and "is_strong_probable_prime 7 n = Inr True"
      and "is_strong_probable_prime 61 n = Inr True"
      using assms n by (simp_all add: is_strong_probable_prime_prime)
    with False bit None show ?thesis
      by (simp add: is_prime_def and_then_def)
  qed
qed

lemma trial_division_True:
  assumes "trial_division i n = Some True"
  shows "unat i \<le> unat n \<and> unat n \<le> 61 \<and> (even (unat n) \<longleftrightarrow> even (unat i))
         \<and> (\<forall>k. unat i \<le> k \<and> k < unat n \<and> (even k \<longleftrightarrow> even (unat i))
                \<longrightarrow> \<not> k dvd unat n)"
  using assms
proof (induction i n rule: trial_division.induct)
  case (1 i n)
  from "1.prems" have i: "i \<le> 61"
    by (subst (asm) trial_division.simps) (simp split: if_splits)
  show ?case
  proof (cases "n = i")
    case True
    with i show ?thesis
      by (auto simp: word_le_nat_alt)
  next
    case ne: False
    with i "1.prems" have nd: "n mod i \<noteq> 0" and rest: "trial_division (i + 2) n = Some True"
      by (subst (asm) trial_division.simps, simp split: if_splits)+
    have step: "unat (i + 2) = unat i + 2"
      using i by (rule unat_plus_2)
    from "1.IH" [OF i ne nd rest]
    have IH: "unat i + 2 \<le> unat n" "unat n \<le> 61" "even (unat n) \<longleftrightarrow> even (unat i)"
      "\<And>k. unat i + 2 \<le> k \<Longrightarrow> k < unat n \<Longrightarrow> (even k \<longleftrightarrow> even (unat i))
         \<Longrightarrow> \<not> k dvd unat n"
      unfolding step by simp_all
    have "\<not> k dvd unat n"
      if k: "unat i \<le> k" "k < unat n" "even k \<longleftrightarrow> even (unat i)" for k
    proof (cases "k = unat i")
      case True
      with nd show ?thesis
        by (simp add: mod_word_dvd)
    next
      case False
      have "k \<noteq> Suc (unat i)"
        using k(3) by auto
      with False k(1) have "unat i + 2 \<le> k"
        by simp
      then show ?thesis
        using k(2,3) by (rule IH(4))
    qed
    with IH(1,2,3) show ?thesis
      by simp
  qed
qed

lemma odd_no_small_divisor_prime:
  assumes "2 < n" and "odd n" and "n < 4489"
    and none: "\<forall>k. 3 \<le> k \<and> k \<le> 61 \<and> k < n \<and> odd k \<longrightarrow> \<not> k dvd n"
  shows "prime_nat n"
proof -
  have "\<not> d dvd n" if d: "d \<in> {2..<n}" for d
  proof
    assume "d dvd n"
    then obtain q where n: "n = d * q" ..
    define m where "m = min d q"
    from n d assms(1) have q: "2 \<le> q"
      by (cases "q = 0"; cases "q = 1") auto
    have m_dvd: "m dvd n"
      by (simp add: m_def n min_def)
    from d q have m2: "2 \<le> m"
      by (simp add: m_def)
    from m_dvd assms(2) have "odd m"
      by (auto elim: dvd_trans)
    with m2 have m3: "3 \<le> m"
      by (cases "m = 2") simp_all
    have "m * m \<le> d * q"
      by (simp add: m_def min_def mult_le_mono)
    with n assms(3) have "m * m < 67 * 67"
      by simp
    have "m < 67"
    proof (rule ccontr)
      assume "\<not> m < 67"
      then have "67 * 67 \<le> m * m"
        by (intro mult_le_mono) simp_all
      with \<open>m * m < 67 * 67\<close> show False
        by simp
    qed
    from d n q have "m < n"
      by (auto simp: m_def min_def)
    show False
    proof (cases "m \<le> 61")
      case True
      with none m3 \<open>m < n\<close> \<open>odd m\<close> m_dvd show False
        by blast
    next
      case False
      with \<open>m < 67\<close> have "m = 62 \<or> m = 63 \<or> m = 64 \<or> m = 65 \<or> m = 66"
        by arith
      with \<open>odd m\<close> have "m = 63 \<or> m = 65"
        by auto
      then have "3 dvd m \<or> 5 dvd m"
        by auto
      with m_dvd have "3 dvd n \<or> 5 dvd n"
        by (auto elim: dvd_trans)
      moreover from False \<open>m < n\<close> have "3 < n" and "5 < n"
        by simp_all
      ultimately show False
        using none by auto
    qed
  qed
  with assms(1) show ?thesis
    by (simp add: prime_nat_def)
qed

lemma prime_nat_2: "prime_nat 2"
  by (simp add: prime_nat_def)

lemma is_prime_sound_small:
  assumes "is_prime n = Inr True" and "unat n < 4489"
  shows "prime_nat (unat n)"
proof (cases "n \<le> 2")
  case True
  with assms(1) have "n = 2"
    by (simp add: is_prime_def)
  then show ?thesis
    by (simp add: prime_nat_2)
next
  case False
  then have n: "2 < unat n"
    by (simp add: word_less_nat_alt not_le)
  from False assms(1) have bit: "n AND 1 \<noteq> 0"
    by (auto simp: is_prime_def split: if_splits)
  then have odd: "odd (unat n)"
    by (simp add: and_one_odd)
  have "\<not> k dvd unat n" if k: "3 \<le> k" "k \<le> 61" "k < unat n" "odd k" for k
  proof (cases "trial_division 3 n")
    case None
    from k(1,4) have "even (k - unat (3 :: u32))"
      by simp
    with k(1,2) have "unat n \<noteq> k \<and> \<not> k dvd unat n"
      by (intro trial_division_None [OF None]) simp_all
    then show ?thesis ..
  next
    case (Some b)
    with False bit assms(1) have "trial_division 3 n = Some True"
      by (simp add: is_prime_def)
    from trial_division_True [OF this] k show ?thesis
      by simp
  qed
  then have "\<forall>k. 3 \<le> k \<and> k \<le> 61 \<and> k < unat n \<and> odd k \<longrightarrow> \<not> k dvd unat n"
    by blast
  with n odd assms(2) show ?thesis
    by (rule odd_no_small_divisor_prime)
qed

lemma is_prime_exact_small:
  assumes "unat n < 4489"
  shows "is_prime n = Inr (prime_nat (unat n))"
proof (cases "prime_nat (unat n)")
  case True
  then show ?thesis
    by (simp add: is_prime_accepts_primes)
next
  case False
  obtain b where b: "is_prime n = Inr b"
    using is_prime_defined [of n] ..
  have "\<not> b"
  proof
    assume b
    with b assms have "prime_nat (unat n)"
      by (intro is_prime_sound_small) simp_all
    with False show False ..
  qed
  with b False show ?thesis
    by simp
qed

section \<open>Results on the range driver\<close>

lemma card_u32_nonzero:
  assumes "(0 :: u32) \<notin> S"
  shows "card S < 2 ^ 32"
proof -
  from assms have "S \<subseteq> UNIV - {0}"
    by auto
  then have "card S \<le> card (UNIV - {0 :: u32})"
    by (intro card_mono) simp_all
  also have "\<dots> = 2 ^ 32 - 1"
    by (simp add: card_Diff_singleton card_word)
  finally show ?thesis
    by simp
qed

lemma count_loop_value:
  "count_loop i hi count
   = Inr (count + of_nat (card {j. i \<le> j \<and> j < hi \<and> is_prime j = Inr True}))"
proof (induction i hi count rule: count_loop.induct)
  case (1 i hi count)
  let ?S = "\<lambda>i. {j. i \<le> j \<and> j < hi \<and> is_prime j = Inr True}"
  show ?case
  proof (cases "i < hi")
    case False
    then have empty: "?S i = {}"
      by auto
    from False have "count_loop i hi count = Inr count"
      by (subst count_loop.simps) simp
    then show ?thesis
      unfolding empty by simp
  next
    case True
    obtain b where b: "is_prime i = Inr b"
      using is_prime_defined [of i] by blast
    have suc: "unat (i + 1) = Suc (unat i)"
      using True by (rule unat_Suc_word)
    have above: "i + 1 \<le> j \<longleftrightarrow> i \<le> j \<and> j \<noteq> i" for j
      by (auto simp: word_le_nat_alt suc word_unat_eq_iff)
    have split: "?S i = (if b then insert i (?S (i + 1)) else ?S (i + 1))"
      using True b by (auto simp: above)
    have "i \<notin> ?S (i + 1)"
      by (simp add: above)
    moreover have "finite (?S (i + 1))"
      by simp
    ultimately have card: "card (?S i) = (if b then 1 else 0) + card (?S (i + 1))"
      by (simp add: split)
    have "count_loop i hi count = count_loop (i + 1) hi (count + (if b then 1 else 0))"
      using True b by (subst count_loop.simps) simp
    also have "\<dots> = Inr (count + (if b then 1 else 0) + of_nat (card (?S (i + 1))))"
      using True b by (rule "1.IH")
    also have "count + (if b then 1 else 0) + of_nat (card (?S (i + 1)))
        = count + of_nat (card (?S i))"
      by (simp add: card)
    finally show ?thesis .
  qed
qed

lemma unat_of_nat_card:
  assumes "(0 :: u32) \<notin> S"
  shows "unat (of_nat (card S) :: u32) = card S"
  using card_u32_nonzero [OF assms] by (simp add: unat_of_nat take_bit_nat_eq_self)

lemma count_primes_value:
  "count_primes lo hi
   = Inr (of_nat (card {i. lo \<le> i \<and> i \<le> hi \<and> is_prime i = Inr True}))"
proof (cases "lo \<le> hi")
  case False
  then have empty: "{i. lo \<le> i \<and> i \<le> hi \<and> is_prime i = Inr True} = {}"
    by auto
  from False have "\<not> lo < hi"
    by auto
  then have "count_loop lo hi 0 = Inr 0"
    by (subst count_loop.simps) simp
  with False show ?thesis
    unfolding empty by (simp add: count_primes_def and_then_def)
next
  case True
  obtain b where b: "is_prime hi = Inr b"
    using is_prime_defined [of hi] by blast
  let ?S = "{j. lo \<le> j \<and> j < hi \<and> is_prime j = Inr True}"
  have split: "{i. lo \<le> i \<and> i \<le> hi \<and> is_prime i = Inr True}
      = (if b then insert hi ?S else ?S)"
    using True b by (auto simp: order_le_less)
  have "hi \<notin> ?S"
    by simp
  moreover have "finite ?S"
    by simp
  ultimately have card: "card {i. lo \<le> i \<and> i \<le> hi \<and> is_prime i = Inr True}
      = (if b then 1 else 0) + card ?S"
    by (simp add: split)
  have "count_primes lo hi = count_loop lo hi (if b then 1 else 0)"
    using True b by (simp add: count_primes_def and_then_def)
  also have "\<dots> = Inr ((if b then 1 else 0) + of_nat (card ?S))"
    by (rule count_loop_value)
  also have "(if b then 1 else 0) + of_nat (card ?S)
      = (of_nat (card {i. lo \<le> i \<and> i \<le> hi \<and> is_prime i = Inr True}) :: u32)"
    by (simp add: card)
  finally show ?thesis .
qed

lemma card_primes_unat:
  "card {i :: u32. lo \<le> i \<and> i \<le> hi \<and> prime_nat (unat i)}
   = card {k. unat lo \<le> k \<and> k \<le> unat hi \<and> prime_nat k}"
proof -
  let ?W = "{i :: u32. lo \<le> i \<and> i \<le> hi \<and> prime_nat (unat i)}"
  let ?N = "{k. unat lo \<le> k \<and> k \<le> unat hi \<and> prime_nat k}"
  have image: "unat ` ?W = ?N"
  proof (intro equalityI subsetI)
    fix k
    assume "k \<in> unat ` ?W"
    then obtain i where "i \<in> ?W" and "k = unat i" ..
    then show "k \<in> ?N"
      by (simp add: word_le_nat_alt)
  next
    fix k
    assume "k \<in> ?N"
    then have k: "unat lo \<le> k" "k \<le> unat hi" "prime_nat k"
      by simp_all
    from k(2) unat_u32_bound [of hi] have "k < 2 ^ 32"
      by simp
    then have cast: "unat (of_nat k :: u32) = k"
      by (simp add: unat_of_nat take_bit_nat_eq_self)
    with k have "(of_nat k :: u32) \<in> ?W"
      by (simp add: word_le_nat_alt)
    with cast [symmetric] show "k \<in> unat ` ?W"
      by (rule image_eqI)
  qed
  have "inj_on unat ?W"
  proof (rule inj_onI)
    fix x y :: u32
    assume "unat x = unat y"
    then show "x = y"
      by (rule word_unat_eq_iff [THEN iffD2])
  qed
  then have "card (unat ` ?W) = card ?W"
    by (rule card_image)
  then show ?thesis
    by (simp only: image)
qed

text \<open>
  What is proved of the range driver. Called with \<open>lo\<close> and \<open>hi\<close>, it runs into no
  undefined operation and returns, without wrap-around of its 32-bit counter, the number
  of values of the closed range \<open>[lo, hi]\<close> that \<^verbatim>\<open>is_prime\<close> classifies as prime. For
  \<open>lo \<le> hi\<close> that number is 1 when \<open>hi\<close> is classified prime, plus one for every value of
  \<open>[lo, hi)\<close> classified prime: \<open>hi\<close> is counted once and nothing is counted twice or
  left out at either end. For \<open>lo > hi\<close> it returns 0. Every prime of \<open>[lo, hi]\<close> is
  counted, and the value returned is the number of primes in \<open>[lo, hi]\<close> for \<open>hi < 4489\<close>
  and wherever else \<^verbatim>\<open>is_prime\<close> is exact on the range. Claim C4, the number of primes
  for every range, needs in addition that \<^verbatim>\<open>is_prime\<close> accepts no composite from 4489
  on, which is not proved here.
\<close>

theorem count_primes_closed_range:
  "\<exists>c. count_primes lo hi = Inr c
     \<and> unat c = card {i. lo \<le> i \<and> i \<le> hi \<and> is_prime i = Inr True}
     \<and> (lo \<le> hi \<longrightarrow>
          unat c = (if is_prime hi = Inr True then 1 else 0)
                   + card {i. lo \<le> i \<and> i < hi \<and> is_prime i = Inr True})
     \<and> (hi < lo \<longrightarrow> c = 0)
     \<and> card {k. unat lo \<le> k \<and> k \<le> unat hi \<and> prime_nat k} \<le> unat c
     \<and> (unat hi < 4489
          \<or> (\<forall>i. lo \<le> i \<and> i \<le> hi \<longrightarrow> is_prime i = Inr (prime_nat (unat i))) \<longrightarrow>
          unat c = card {k. unat lo \<le> k \<and> k \<le> unat hi \<and> prime_nat k})"
proof -
  let ?A = "{i. lo \<le> i \<and> i \<le> hi \<and> is_prime i = Inr True}"
  define c :: u32 where "c = of_nat (card ?A)"
  have run: "count_primes lo hi = Inr c"
    unfolding c_def by (rule count_primes_value)
  have "0 \<notin> ?A"
    by (simp add: is_prime_0)
  then have c: "unat c = card ?A"
    unfolding c_def by (rule unat_of_nat_card)
  have boundary: "unat c = (if is_prime hi = Inr True then 1 else 0)
      + card {i. lo \<le> i \<and> i < hi \<and> is_prime i = Inr True}" if "lo \<le> hi"
  proof -
    let ?S = "{i. lo \<le> i \<and> i < hi \<and> is_prime i = Inr True}"
    have "?A = (if is_prime hi = Inr True then insert hi ?S else ?S)"
      using that by (auto simp: order_le_less)
    moreover have "hi \<notin> ?S" and "finite ?S"
      by simp_all
    ultimately have "card ?A = (if is_prime hi = Inr True then 1 else 0) + card ?S"
      by simp
    then show ?thesis
      by (simp only: c)
  qed
  have empty: "c = 0" if "hi < lo"
  proof -
    from that have "?A = {}"
      by auto
    then have "card ?A = 0"
      by (simp only: card.empty)
    then have "unat c = 0"
      by (simp only: c)
    then show ?thesis
      by (simp add: unat_eq_zero)
  qed
  have exact: "unat c = card {k. unat lo \<le> k \<and> k \<le> unat hi \<and> prime_nat k}"
    if "\<forall>i. lo \<le> i \<and> i \<le> hi \<longrightarrow> is_prime i = Inr (prime_nat (unat i))"
  proof -
    from that have "?A = {i. lo \<le> i \<and> i \<le> hi \<and> prime_nat (unat i)}"
      by auto
    then show ?thesis
      by (simp only: c card_primes_unat)
  qed
  have small: "unat c = card {k. unat lo \<le> k \<and> k \<le> unat hi \<and> prime_nat k}"
    if "unat hi < 4489"
  proof (rule exact, intro allI impI)
    fix i
    assume "lo \<le> i \<and> i \<le> hi"
    with that have "unat i < 4489"
      by (simp add: word_le_nat_alt)
    then show "is_prime i = Inr (prime_nat (unat i))"
      by (rule is_prime_exact_small)
  qed
  have "{i. lo \<le> i \<and> i \<le> hi \<and> prime_nat (unat i)} \<subseteq> ?A"
    by (auto simp: is_prime_accepts_primes)
  then have "card {i. lo \<le> i \<and> i \<le> hi \<and> prime_nat (unat i)} \<le> card ?A"
    by (intro card_mono) simp_all
  then have all_counted: "card {k. unat lo \<le> k \<and> k \<le> unat hi \<and> prime_nat k} \<le> unat c"
    by (simp only: c card_primes_unat)
  from run c boundary empty all_counted exact small show ?thesis
    by blast
qed

theorem count_primes_closed_range_witness:
  "(3 :: u32) \<le> 7 \<and> unat (7 :: u32) < 4489 \<and> count_primes 3 7 = Inr 3
   \<and> is_prime 3 = Inr True \<and> is_prime 4 = Inr False \<and> is_prime 5 = Inr True
   \<and> is_prime 6 = Inr False \<and> is_prime 7 = Inr True
   \<and> card {k. unat (3 :: u32) \<le> k \<and> k \<le> unat (7 :: u32) \<and> prime_nat k} = 3
   \<and> (3 :: u32) < 7 \<and> count_primes 7 3 = Inr 0"
proof -
  have verdicts: "is_prime 3 = Inr True" "is_prime 4 = Inr False" "is_prime 5 = Inr True"
    "is_prime 6 = Inr False" "is_prime 7 = Inr True"
    by (simp_all add: is_prime_def trial_division.simps)
  have run: "count_primes 3 7 = Inr 3"
    by (simp add: count_primes_def and_then_def count_loop.simps verdicts)
  from count_primes_closed_range [of 3 7] run
  have "card {k. unat (3 :: u32) \<le> k \<and> k \<le> unat (7 :: u32) \<and> prime_nat k} = 3"
    by simp
  moreover from count_primes_closed_range [of 7 3] have "count_primes 7 3 = Inr 0"
    by auto
  ultimately show ?thesis
    using run verdicts by simp
qed

end
